theory Spec2Isabelle
  imports Main "HOL-Library.Sublist" "HOL-Library.Char_ord" "HOL-Library.List_Lexorder"
    "HOL-Library.AList" "HOL-Library.Multiset"
begin

section \<open>The word counter\<close>

text \<open>
  \<^verbatim>\<open>count_words\<close> of \<^verbatim>\<open>src/textmify.py\<close> reads a file and returns
  \<^verbatim>\<open>len(re.findall(r'\b\w+\b', content))\<close>. The regular expression engine is Python's;
  what it does on this one pattern is written out here. The class \<^verbatim>\<open>\w\<close> is a table of the
  engine (letters, digits and the underscore, in Unicode), so it is a parameter \<open>w\<close> of the
  model; \<open>ascii_word\<close> is its ASCII part, used wherever a text is evaluated.
\<close>

definition ascii_word :: "char \<Rightarrow> bool" where
  "ascii_word c =
     (let n = (of_char c :: nat)
      in (48 \<le> n \<and> n \<le> 57) \<or> (65 \<le> n \<and> n \<le> 90) \<or> (97 \<le> n \<and> n \<le> 122) \<or> n = 95)"

text \<open>
  \<^verbatim>\<open>\b\<close> at position \<open>i\<close> of \<open>s\<close>: exactly one of the characters before and after the
  position is a word character, where the outside of the text counts as a non-word character.
\<close>

definition at_boundary :: "(char \<Rightarrow> bool) \<Rightarrow> string \<Rightarrow> nat \<Rightarrow> bool" where
  "at_boundary w s i = ((0 < i \<and> w (s ! (i - 1))) \<noteq> (i < length s \<and> w (s ! i)))"

text \<open>
  \<^verbatim>\<open>\w+\b\<close> from position \<open>i\<close>, where \<open>k\<close> word characters follow: the greedy repetition
  takes all \<open>k\<close> and gives them back one at a time until the closing \<^verbatim>\<open>\b\<close> holds, keeping
  at least one.
\<close>

fun backtrack :: "(char \<Rightarrow> bool) \<Rightarrow> string \<Rightarrow> nat \<Rightarrow> nat \<Rightarrow> nat option" where
  "backtrack w s i 0 = None"
| "backtrack w s i (Suc k) =
     (if at_boundary w s (i + Suc k) then Some (i + Suc k) else backtrack w s i k)"

text \<open>The whole pattern tried at position \<open>i\<close>: the end of the match, if there is one.\<close>

definition match_at :: "(char \<Rightarrow> bool) \<Rightarrow> string \<Rightarrow> nat \<Rightarrow> nat option" where
  "match_at w s i =
     (if at_boundary w s i then backtrack w s i (length (takeWhile w (drop i s))) else None)"

lemma backtrack_range: "backtrack w s i k = Some e \<Longrightarrow> i < e \<and> e \<le> i + k"
  by (induction k) (auto split: if_splits)

lemma match_at_range:
  "match_at w s i = Some e \<Longrightarrow> i < e \<and> e \<le> i + length (takeWhile w (drop i s))"
  by (auto simp: match_at_def split: if_splits dest: backtrack_range)

lemma match_at_bound: "match_at w s i = Some e \<Longrightarrow> i < e \<and> e \<le> length s"
proof -
  assume m: "match_at w s i = Some e"
  have "length (takeWhile w (drop i s)) \<le> length (drop i s)"
    by (rule length_takeWhile_le)
  with match_at_range [OF m] show ?thesis by auto
qed

text \<open>
  \<^verbatim>\<open>re.findall\<close>: the pattern is tried at each position from left to right; after a match
  the search goes on at the end of the match, otherwise one character further, up to and
  including the end of the text. The result is the list of the matched substrings.
\<close>

function findall :: "(char \<Rightarrow> bool) \<Rightarrow> string \<Rightarrow> nat \<Rightarrow> string list" where
  "findall w s pos =
     (if length s < pos then []
      else case match_at w s pos of
             None \<Rightarrow> findall w s (Suc pos)
           | Some e \<Rightarrow> take (e - pos) (drop pos s) # findall w s e)"
  by pat_completeness auto
termination
  by (relation "measure (\<lambda>(w, s, pos). Suc (length s) - pos)")
     (auto dest: match_at_bound)

declare findall.simps [simp del]

text \<open>The count \<^verbatim>\<open>count_words\<close> returns for a text it could read.\<close>

definition count_words_text :: "(char \<Rightarrow> bool) \<Rightarrow> string \<Rightarrow> nat" where
  "count_words_text w content = length (findall w content 0)"

text \<open>
  The specification's words: a word is a maximal run of word characters, the tokens of
  \<^verbatim>\<open>\w+\<close> under maximal munch. \<open>runs\<close> cuts the text into these tokens; \<open>run_starts\<close> lists
  the positions where a maximal run begins (a word character with none before it).
\<close>

function runs :: "(char \<Rightarrow> bool) \<Rightarrow> string \<Rightarrow> string list" where
  "runs w [] = []"
| "runs w (c # cs) =
     (if w c then (c # takeWhile w cs) # runs w (dropWhile w cs) else runs w cs)"
  by pat_completeness auto
termination
  by (relation "measure (\<lambda>(w, s). length s)")
     (auto simp: length_dropWhile_le less_Suc_eq_le)

definition run_starts :: "(char \<Rightarrow> bool) \<Rightarrow> string \<Rightarrow> nat list" where
  "run_starts w s =
     filter (\<lambda>i. w (s ! i) \<and> (i = 0 \<or> \<not> w (s ! (i - 1)))) [0..<length s]"

section \<open>Paths and the directory\<close>

text \<open>
  A path inside the packed directory is its file name. \<^verbatim>\<open>Path.stem\<close> is pathlib's: with
  \<^verbatim>\<open>i = name.rfind('.')\<close>, the stem is \<^verbatim>\<open>name[:i]\<close> if \<^verbatim>\<open>0 < i < len(name) - 1\<close> and
  the whole name otherwise (pathlib up to Python 3.12; on a name that ends in \<^verbatim>\<open>.md\<close> and
  does not start with a dot every version agrees). Below, \<open>k\<close> is the number of characters after the last dot
  (the whole length if there is no dot), so that \<open>i = length name - Suc k\<close>.
\<close>

definition stem :: "string \<Rightarrow> string" where
  "stem name =
     (let k = length (takeWhile (\<lambda>c. c \<noteq> CHR ''.'') (rev name))
      in if 0 < k \<and> Suc k < length name then take (length name - Suc k) name else name)"

text \<open>
  The directory is the list of its entries, in the order the operating system lists them.
  \<^verbatim>\<open>glob('*.md')\<close> does not ask whether an entry is a regular file, so an entry is either a
  regular file with its text or a directory; \<^verbatim>\<open>open\<close> raises on a directory, for reading
  and for writing, and on a name that does not exist, for reading.
\<close>

datatype node = Regular string | Directory

type_synonym directory = "(string \<times> node) list"

definition read_text :: "directory \<Rightarrow> string \<Rightarrow> string option" where
  "read_text d path = (case map_of d path of Some (Regular content) \<Rightarrow> Some content | _ \<Rightarrow> None)"

definition write_text :: "directory \<Rightarrow> string \<Rightarrow> string \<Rightarrow> directory option" where
  "write_text d path content =
     (case map_of d path of
        Some Directory \<Rightarrow> None
      | _ \<Rightarrow> Some (AList.update path (Regular content) d))"

text \<open>What the run does to the outside world, in the order it does it.\<close>

datatype event =
    Open_read string      \<comment> \<open>\<^verbatim>\<open>open(path, 'r')\<close>, successful or not\<close>
  | Open_write string     \<comment> \<open>\<^verbatim>\<open>open(path, 'w')\<close> and the write\<close>
  | Logging_error string  \<comment> \<open>\<^verbatim>\<open>logging.error\<close> of \<^verbatim>\<open>count_words\<close>\<close>
  | Logger_error string   \<comment> \<open>\<^verbatim>\<open>logger.error\<close> of the packer\<close>
  | Logger_warning        \<comment> \<open>\<^verbatim>\<open>logger.warning\<close>: no markdown files found\<close>

text \<open>
  \<^verbatim>\<open>count_words(file_path)\<close>: the count of the text, or 0 and a log line when the file
  cannot be read (the decoding replaces undecodable bytes and never fails).
\<close>

definition count_words :: "(char \<Rightarrow> bool) \<Rightarrow> directory \<Rightarrow> string \<Rightarrow> nat \<times> event list" where
  "count_words w d file_path =
     (case read_text d file_path of
        Some content \<Rightarrow> (count_words_text w content, [Open_read file_path])
      | None \<Rightarrow> (0, [Open_read file_path, Logging_error file_path]))"

section \<open>The bundle packer\<close>

text \<open>
  The source keeps, of the current bundle, the list \<^verbatim>\<open>current_content\<close> of the texts it
  appended and the running total \<^verbatim>\<open>current_word_count\<close>, and of the finished bundles the
  list \<^verbatim>\<open>combined_files\<close> of their paths. The model keeps with each text the file it came
  from and the word count that was added for it, and with each path the members and the
  running total at the time of writing, so that the claims about members and totals can be
  stated; no decision of the packer reads these extra fields.
\<close>

record member =
  m_file :: string
  m_words :: nat
  m_text :: string

record packed_file =
  b_path :: string
  b_members :: "member list"
  b_words :: nat

record packer =
  files :: directory
  combined_files :: "packed_file list"
  current_file_index :: nat
  current_word_count :: nat
  current_content :: "member list"
  trace :: "event list"

datatype error = Write_failed string

text \<open>\<^verbatim>\<open>sep.join(xs)\<close> and the decimal \<^verbatim>\<open>str\<close> of a natural number.\<close>

fun join :: "string \<Rightarrow> string list \<Rightarrow> string" where
  "join sep [] = []"
| "join sep [x] = x"
| "join sep (x # y # ys) = x @ sep @ join sep (y # ys)"

fun str_nat :: "nat \<Rightarrow> string" where
  "str_nat n =
     (if n < 10 then [char_of (48 + n)]
      else str_nat (n div 10) @ [char_of (48 + n mod 10)])"

declare str_nat.simps [simp del]

definition output_path :: "nat \<Rightarrow> string" where
  "output_path i = ''packed_'' @ str_nat i @ ''.md''"

definition heading :: "string \<Rightarrow> string \<Rightarrow> string" where
  "heading md_file file_content =
     ''## '' @ stem md_file @ [CHR 0x0A, CHR 0x0A] @ file_content"

definition delimiter :: string where
  "delimiter = [CHR 0x0A, CHR 0x0A] @ ''---'' @ [CHR 0x0A, CHR 0x0A]"

text \<open>
  Lines 156 to 159 and 174 to 177: the current bundle is written to
  \<^verbatim>\<open>packed_<current_file_index>.md\<close> and its path appended to \<^verbatim>\<open>combined_files\<close>.
\<close>

definition write_bundle :: "packer \<Rightarrow> error + packer" where
  "write_bundle s =
     (let p = output_path (current_file_index s)
      in case write_text (files s) p (join delimiter (map m_text (current_content s))) of
           None \<Rightarrow> Inl (Write_failed p)
         | Some d \<Rightarrow>
             Inr (s\<lparr>files := d,
                    combined_files := combined_files s @
                      [\<lparr>b_path = p, b_members = current_content s,
                        b_words = current_word_count s\<rparr>],
                    trace := trace s @ [Open_write p]\<rparr>))"

text \<open>Lines 156 to 162: the bundle is written, the index moves on, the accumulator is reset.\<close>

definition flush :: "packer \<Rightarrow> error + packer" where
  "flush s =
     (case write_bundle s of
        Inl e \<Rightarrow> Inl e
      | Inr s' \<Rightarrow>
          Inr (s'\<lparr>current_file_index := current_file_index s' + 1,
                 current_word_count := 0,
                 current_content := []\<rparr>))"

text \<open>Line 155: the test that decides whether the current bundle is flushed first.\<close>

definition flush_due :: "int \<Rightarrow> packer \<Rightarrow> nat \<Rightarrow> bool" where
  "flush_due max_words s word_count =
     (0 < current_word_count s \<and> max_words < int (current_word_count s + word_count))"

text \<open>Lines 164 to 171: the file is read and appended, or the failure is logged.\<close>

definition add_file :: "bool \<Rightarrow> string \<Rightarrow> nat \<Rightarrow> packer \<Rightarrow> packer" where
  "add_file logger md_file word_count s =
     (case read_text (files s) md_file of
        Some file_content \<Rightarrow>
          s\<lparr>current_content := current_content s @
               [\<lparr>m_file = md_file, m_words = word_count,
                 m_text = heading md_file file_content\<rparr>],
            current_word_count := current_word_count s + word_count,
            trace := trace s @ [Open_read md_file]\<rparr>
      | None \<Rightarrow>
          s\<lparr>trace := trace s @ Open_read md_file #
               (if logger then [Logger_error md_file] else [])\<rparr>)"

text \<open>Lines 152 to 171: the body of the loop, for one file.\<close>

definition body :: "(char \<Rightarrow> bool) \<Rightarrow> int \<Rightarrow> bool \<Rightarrow> string \<Rightarrow> packer \<Rightarrow> error + packer" where
  "body w max_words logger md_file s =
     (let (word_count, evs) = count_words w (files s) md_file;
          s1 = s\<lparr>trace := trace s @ evs\<rparr>
      in case (if flush_due max_words s1 word_count then flush s1 else Inr s1) of
           Inl e \<Rightarrow> Inl e
         | Inr s2 \<Rightarrow> Inr (add_file logger md_file word_count s2))"

fun loop :: "(char \<Rightarrow> bool) \<Rightarrow> int \<Rightarrow> bool \<Rightarrow> string list \<Rightarrow> packer \<Rightarrow> error + packer" where
  "loop w max_words logger [] s = Inr s"
| "loop w max_words logger (md_file # rest) s =
     (case body w max_words logger md_file s of
        Inl e \<Rightarrow> Inl e
      | Inr s' \<Rightarrow> loop w max_words logger rest s')"

text \<open>
  Lines 138 to 140: the entries matching \<^verbatim>\<open>*.md\<close> whose stem does not start with
  \<^verbatim>\<open>packed_\<close>.
\<close>

definition discover :: "directory \<Rightarrow> string list" where
  "discover d =
     filter (\<lambda>f. \<not> prefix ''packed_'' (stem f)) (filter (suffix ''.md'') (map fst d))"

definition start :: "directory \<Rightarrow> packer" where
  "start d = \<lparr>files = d, combined_files = [], current_file_index = 0,
              current_word_count = 0, current_content = [], trace = []\<rparr>"

text \<open>
  \<^verbatim>\<open>combine_markdown_files(markdown_dir, max_words, logger)\<close>. \<open>logger\<close> tells whether a
  logger was passed (the default is none). The result is the final state: its
  \<open>combined_files\<close> is the list the source returns and its \<open>files\<close> the directory it
  leaves; an exception of a write leaves the function and is the result \<open>Inl\<close>.
  Paths of one directory compare as their names do, strings by code point.
\<close>

definition combine_markdown_files ::
  "(char \<Rightarrow> bool) \<Rightarrow> directory \<Rightarrow> int \<Rightarrow> bool \<Rightarrow> error + packer" where
  "combine_markdown_files w markdown_dir max_words logger =
     (let markdown_files = discover markdown_dir
      in if markdown_files = []
         then Inr ((start markdown_dir)\<lparr>trace := (if logger then [Logger_warning] else [])\<rparr>)
         else case loop w max_words logger (sort markdown_files) (start markdown_dir) of
                Inl e \<Rightarrow> Inl e
              | Inr s \<Rightarrow> if current_content s \<noteq> [] then write_bundle s else Inr s)"

section \<open>The word counter counts maximal runs\<close>

lemma takeWhile_run_end:
  assumes "pos < length s" "w (s ! pos)"
  defines "n \<equiv> length (takeWhile w (drop pos s))"
  shows "0 < n" "pos + n \<le> length s" "w (s ! (pos + n - 1))"
    "pos + n < length s \<Longrightarrow> \<not> w (s ! (pos + n))"
proof -
  have d: "drop pos s = s ! pos # drop (Suc pos) s"
    using assms(1) by (simp add: Cons_nth_drop_Suc)
  show n0: "0 < n" using assms(2) by (simp add: n_def d)
  have le: "n \<le> length (drop pos s)" unfolding n_def by (rule length_takeWhile_le)
  then show b: "pos + n \<le> length s" using assms(1) by simp
  have "takeWhile w (drop pos s) ! (n - 1) \<in> set (takeWhile w (drop pos s))"
    using n0 by (simp add: n_def)
  then have "w (takeWhile w (drop pos s) ! (n - 1))"
    by (meson set_takeWhileD)
  moreover have "takeWhile w (drop pos s) ! (n - 1) = drop pos s ! (n - 1)"
    using n0 by (simp add: n_def takeWhile_nth)
  ultimately show "w (s ! (pos + n - 1))"
    using n0 le assms(1) by (simp add: Nat.add_diff_assoc)
  show "\<not> w (s ! (pos + n))" if "pos + n < length s"
  proof -
    have "n < length (drop pos s)" using that by simp
    then have "\<not> w (drop pos s ! n)"
      unfolding n_def by (rule nth_length_takeWhile)
    then show ?thesis using that by simp
  qed
qed

lemma backtrack_top:
  "at_boundary w s (i + k) \<Longrightarrow> 0 < k \<Longrightarrow> backtrack w s i k = Some (i + k)"
  by (cases k) auto

lemma match_at_run:
  assumes "pos < length s" "w (s ! pos)" "pos = 0 \<or> \<not> w (s ! (pos - 1))"
  shows "match_at w s pos = Some (pos + length (takeWhile w (drop pos s)))"
proof -
  let ?n = "length (takeWhile w (drop pos s))"
  note r = takeWhile_run_end [of pos s w, OF assms(1,2)]
  have b0: "at_boundary w s pos"
    using assms by (auto simp: at_boundary_def)
  have "at_boundary w s (pos + ?n)"
    using r by (auto simp: at_boundary_def)
  then have "backtrack w s pos ?n = Some (pos + ?n)"
    using r(1) by (rule backtrack_top)
  then show ?thesis using b0 by (simp add: match_at_def)
qed

lemma match_at_nonword:
  assumes "pos < length s \<Longrightarrow> \<not> w (s ! pos)"
  shows "match_at w s pos = None"
proof (cases "pos < length s")
  case True
  then have "drop pos s = s ! pos # drop (Suc pos) s" by (simp add: Cons_nth_drop_Suc)
  then have "takeWhile w (drop pos s) = []" using assms True by simp
  then show ?thesis by (simp add: match_at_def)
next
  case False
  then show ?thesis by (simp add: match_at_def)
qed

lemma findall_runs:
  "pos \<le> length s \<Longrightarrow> \<not> (0 < pos \<and> pos < length s \<and> w (s ! (pos - 1)) \<and> w (s ! pos))
    \<Longrightarrow> findall w s pos = runs w (drop pos s)"
proof (induction w s pos rule: findall.induct)
  case (1 w s pos)
  show ?case
  proof (cases "pos < length s \<and> w (s ! pos)")
    case True
    let ?n = "length (takeWhile w (drop pos s))"
    have t1: "pos < length s" and t2: "w (s ! pos)" using True by auto
    note r = takeWhile_run_end [of pos s w, OF t1 t2]
    have m: "match_at w s pos = Some (pos + ?n)"
      using True "1.prems" by (intro match_at_run) auto
    have d: "drop pos s = s ! pos # drop (Suc pos) s"
      using True by (simp add: Cons_nth_drop_Suc)
    have ih: "findall w s (pos + ?n) = runs w (drop (pos + ?n) s)"
    proof (rule "1.IH"(2) [OF _ m])
      show "\<not> length s < pos" using t1 by simp
      show "pos + ?n \<le> length s" by (rule r(2))
      show "\<not> (0 < pos + ?n \<and> pos + ?n < length s \<and> w (s ! (pos + ?n - 1)) \<and> w (s ! (pos + ?n)))"
        using r(4) by blast
    qed
    have dw: "dropWhile w (drop (Suc pos) s) = drop (pos + ?n) s"
    proof -
      have "dropWhile w (drop pos s) = drop ?n (drop pos s)"
        by (rule dropWhile_eq_drop)
      moreover have "dropWhile w (drop pos s) = dropWhile w (drop (Suc pos) s)"
        using True by (subst d) simp
      ultimately show ?thesis by (simp add: add.commute)
    qed
    have tw: "take ?n (drop pos s) = s ! pos # takeWhile w (drop (Suc pos) s)"
    proof -
      have "take ?n (drop pos s) = takeWhile w (drop pos s)"
        by (rule takeWhile_eq_take [symmetric])
      also have "\<dots> = s ! pos # takeWhile w (drop (Suc pos) s)"
        using True by (subst d) simp
      finally show ?thesis .
    qed
    have "findall w s pos = take ?n (drop pos s) # findall w s (pos + ?n)"
      using "1.prems"(1) m by (subst findall.simps) simp
    also have "\<dots> = runs w (drop pos s)"
      using True by (subst (2) d) (simp add: ih dw tw)
    finally show ?thesis .
  next
    case False
    have m: "match_at w s pos = None"
      using False by (intro match_at_nonword) auto
    show ?thesis
    proof (cases "pos < length s")
      case True
      have d: "drop pos s = s ! pos # drop (Suc pos) s"
        using True by (simp add: Cons_nth_drop_Suc)
      have nw: "\<not> w (s ! pos)" using True False by simp
      have ih: "findall w s (Suc pos) = runs w (drop (Suc pos) s)"
      proof (rule "1.IH"(1) [OF _ m])
        show "\<not> length s < pos" using True by simp
        show "Suc pos \<le> length s" using True by simp
        show "\<not> (0 < Suc pos \<and> Suc pos < length s \<and> w (s ! (Suc pos - 1)) \<and> w (s ! Suc pos))"
          using nw by simp
      qed
      have "findall w s pos = findall w s (Suc pos)"
        using "1.prems"(1) m by (subst findall.simps) simp
      also have "\<dots> = runs w (drop pos s)"
        using True False by (subst d) (simp add: ih)
      finally show ?thesis .
    next
      case False
      then have e: "pos = length s" using "1.prems"(1) by simp
      have "findall w s pos = findall w s (Suc pos)"
        using "1.prems"(1) m by (subst findall.simps) simp
      also have "\<dots> = []" using e by (subst findall.simps) simp
      finally show ?thesis using e by simp
    qed
  qed
qed

lemma run_starts_aux:
  "length (filter (\<lambda>i. w (s ! i) \<and> (if i = 0 then \<not> prev else \<not> w (s ! (i - 1)))) [0..<length s])
     = length (runs w (if prev then dropWhile w s else s))"
proof (induction s arbitrary: prev)
  case Nil
  then show ?case by simp
next
  case (Cons c cs)
  have shift: "(\<lambda>i. w ((c # cs) ! i) \<and> (if i = 0 then \<not> prev else \<not> w ((c # cs) ! (i - 1)))) \<circ> Suc
      = (\<lambda>i. w (cs ! i) \<and> (if i = 0 then \<not> w c else \<not> w (cs ! (i - 1))))"
    by (rule ext) (simp add: nth_Cons')
  have up: "[0..<length (c # cs)] = 0 # map Suc [0..<length cs]"
    by (simp add: upt_conv_Cons map_Suc_upt del: upt_Suc)
  show ?case
    unfolding up using Cons.IH [of "w c"]
    by (simp add: filter_map shift)
qed

lemma length_run_starts: "length (run_starts w s) = length (runs w s)"
proof -
  have "(\<lambda>i. w (s ! i) \<and> (i = 0 \<or> \<not> w (s ! (i - 1))))
      = (\<lambda>i. w (s ! i) \<and> (if i = 0 then \<not> False else \<not> w (s ! (i - 1))))"
    by (rule ext) simp
  then show ?thesis
    unfolding run_starts_def using run_starts_aux [of w s False] by simp
qed

text \<open>
  C6. For every text, the matches of \<^verbatim>\<open>\b\w+\b\<close> that \<^verbatim>\<open>re.findall\<close> returns are exactly
  the maximal runs of word characters, the tokens of \<^verbatim>\<open>\w+\<close> under maximal munch, and the
  count \<^verbatim>\<open>count_words\<close> returns is the number of positions where such a run begins. This
  holds for every character class \<open>w\<close>.
\<close>

theorem count_words_maximal_runs:
  "findall w content 0 = runs w content \<and>
   count_words_text w content = length (runs w content) \<and>
   count_words_text w content = length (run_starts w content)"
proof -
  have "findall w content 0 = runs w content"
    using findall_runs [of 0 content w] by simp
  then show ?thesis
    by (simp add: count_words_text_def length_run_starts)
qed

theorem count_words_maximal_runs_witness:
  "findall ascii_word ''ab, c_1!'' 0 = [''ab'', ''c_1''] \<and>
   count_words_text ascii_word ''ab, c_1!'' = 2 \<and>
   run_starts ascii_word ''ab, c_1!'' = [0, 4]"
proof -
  have r: "runs ascii_word ''ab, c_1!'' = [''ab'', ''c_1'']" by code_simp
  have s: "run_starts ascii_word ''ab, c_1!'' = [0, 4]" by code_simp
  from count_words_maximal_runs [of ascii_word "''ab, c_1!''"] r s show ?thesis by simp
qed

section \<open>Facts about paths\<close>

lemma stem_md: "stem (xs @ ''.md'') = (if xs = [] then ''.md'' else xs)"
  by (simp add: stem_def)

lemma suffix_md_split: "suffix ''.md'' f \<Longrightarrow> \<exists>xs. f = xs @ ''.md''"
  by (auto simp: suffix_def)

lemma prefix_packed_md:
  assumes "prefix ''packed_'' (xs @ ''.md'')"
  shows "prefix ''packed_'' xs"
proof -
  from assms have "prefix ''packed_'' xs \<or> (\<exists>us. ''packed_'' = xs @ us \<and> prefix us ''.md'')"
    by (simp only: prefix_append)
  then show ?thesis
  proof
    assume "prefix ''packed_'' xs" then show ?thesis .
  next
    assume "\<exists>us. ''packed_'' = xs @ us \<and> prefix us ''.md''"
    then obtain us where u: "''packed_'' = xs @ us" "prefix us ''.md''" by blast
    show ?thesis
    proof (cases us)
      case Nil
      with u show ?thesis by simp
    next
      case (Cons c cs)
      with u(2) have "c = CHR ''.''" by simp
      with Cons have "CHR ''.'' \<in> set (xs @ us)" by simp
      with u(1) have "CHR ''.'' \<in> set ''packed_''" by simp
      then show ?thesis by simp
    qed
  qed
qed

lemma discover_iff:
  "f \<in> set (discover d) \<longleftrightarrow> f \<in> fst ` set d \<and> suffix ''.md'' f \<and> \<not> prefix ''packed_'' (stem f)"
  by (auto simp: discover_def)

lemma stem_prefix_packed:
  assumes "suffix ''.md'' f"
  shows "prefix ''packed_'' (stem f) \<longleftrightarrow> prefix ''packed_'' f"
proof -
  from assms obtain xs where f: "f = xs @ ''.md''" by (auto simp: suffix_def)
  show ?thesis
  proof (cases "xs = []")
    case True
    then show ?thesis using stem_md [of "[]"] by (simp add: f)
  next
    case False
    have "prefix ''packed_'' xs \<longleftrightarrow> prefix ''packed_'' (xs @ ''.md'')"
      using prefix_packed_md [of xs] prefix_prefix [of "''packed_''" xs "''.md''"] by blast
    then show ?thesis using False by (simp add: f stem_md)
  qed
qed

lemma discover_not_packed: "f \<in> set (discover d) \<Longrightarrow> \<not> prefix ''packed_'' f"
  using stem_prefix_packed [of f] by (simp add: discover_iff)

lemma prefix_output_path: "prefix ''packed_'' (output_path i)"
  by (simp add: output_path_def)

text \<open>The number a decimal string denotes: \<open>str_nat\<close> read back.\<close>

definition digits_value :: "string \<Rightarrow> nat" where
  "digits_value s = foldl (\<lambda>acc c. 10 * acc + (of_char c - 48)) 0 s"

lemma digits_value_str_nat: "digits_value (str_nat n) = n"
proof (induction n rule: str_nat.induct)
  case (1 n)
  show ?case
  proof (cases "n < 10")
    case True
    then show ?thesis by (subst str_nat.simps) (simp add: digits_value_def)
  next
    case False
    have "of_char (char_of (48 + n mod 10)) = (48 + n mod 10) mod 256"
      by (rule of_char_of)
    moreover have "48 + n mod 10 < 256" by arith
    ultimately have d: "of_char (char_of (48 + n mod 10)) = 48 + n mod 10"
      by (simp only: mod_less)
    have "digits_value (str_nat n) = 10 * digits_value (str_nat (n div 10)) + n mod 10"
      using False d by (subst str_nat.simps) (simp add: digits_value_def)
    then show ?thesis using 1 False by simp
  qed
qed

lemma str_nat_inj:
  assumes "str_nat m = str_nat n"
  shows "m = n"
proof -
  have "digits_value (str_nat m) = digits_value (str_nat n)"
    using assms by (rule arg_cong)
  then show ?thesis by (simp only: digits_value_str_nat)
qed

lemma output_path_inj: "output_path i = output_path j \<longleftrightarrow> i = j"
  by (auto simp: output_path_def dest: str_nat_inj)

text \<open>
  The specification's words for the index in the name: the decimal numeral of the index,
  that is, a non-empty string of digits, with no leading zero unless it is the single digit
  0, whose value is the index. \<open>str_nat\<close> produces it.
\<close>

definition is_digit :: "char \<Rightarrow> bool" where
  "is_digit c = (48 \<le> (of_char c :: nat) \<and> (of_char c :: nat) \<le> 57)"

definition decimal :: "string \<Rightarrow> nat \<Rightarrow> bool" where
  "decimal ds n =
     (ds \<noteq> [] \<and> list_all is_digit ds \<and> (1 < length ds \<longrightarrow> hd ds \<noteq> CHR ''0'') \<and>
      digits_value ds = n)"

lemma of_char_digit: "n < 10 \<Longrightarrow> of_char (char_of (48 + n)) = 48 + n" for n :: nat
proof -
  assume "n < 10"
  have "of_char (char_of (48 + n)) = (48 + n) mod 256"
    by (rule of_char_of)
  moreover have "48 + n < 256" using \<open>n < 10\<close> by arith
  ultimately show ?thesis by (simp only: mod_less)
qed

lemma str_nat_digits: "str_nat n \<noteq> [] \<and> list_all is_digit (str_nat n)"
proof (induction n rule: str_nat.induct)
  case (1 n)
  show ?case
  proof (cases "n < 10")
    case True
    then show ?thesis
      by (subst (1 2) str_nat.simps) (simp add: is_digit_def of_char_digit)
  next
    case False
    have "n mod 10 < 10" by simp
    then have "is_digit (char_of (48 + n mod 10))"
      by (simp only: is_digit_def of_char_digit) simp
    then show ?thesis
      using False 1 by (subst (1 2) str_nat.simps) simp
  qed
qed

lemma str_nat_no_leading_zero: "0 < n \<Longrightarrow> hd (str_nat n) \<noteq> CHR ''0''"
proof (induction n rule: str_nat.induct)
  case (1 n)
  show ?case
  proof (cases "n < 10")
    case True
    have "of_char (hd (str_nat n)) = 48 + n"
      using True by (subst str_nat.simps) (simp add: of_char_digit)
    moreover have "of_char CHR ''0'' = (48 :: nat)" by simp
    ultimately show ?thesis using "1.prems" by (metis add_cancel_right_right less_numeral_extra(3))
  next
    case False
    then have "0 < n div 10" by simp
    with 1 False have "hd (str_nat (n div 10)) \<noteq> CHR ''0''" by simp
    moreover have "str_nat (n div 10) \<noteq> []" using str_nat_digits by blast
    ultimately show ?thesis using False by (subst str_nat.simps) simp
  qed
qed

lemma str_nat_length: "1 < length (str_nat n) \<Longrightarrow> 0 < n"
  by (cases "n = 0") (simp_all add: str_nat.simps)

lemma str_nat_decimal: "decimal (str_nat n) n"
  using str_nat_digits [of n] str_nat_no_leading_zero [of n] str_nat_length [of n]
  by (simp add: decimal_def digits_value_str_nat)

text \<open>\<^verbatim>\<open>sep.join\<close> puts the separator before every element but the first.\<close>

lemma join_Cons: "join sep (x # xs) = x @ concat (map (\<lambda>y. sep @ y) xs)"
  by (induction xs arbitrary: x) simp_all

lemma output_path_examples:
  "output_path 0 = ''packed_0.md''" "output_path 9 = ''packed_9.md''"
  "output_path 10 = ''packed_10.md''" "output_path 205 = ''packed_205.md''"
  by code_simp+

lemma join_examples:
  "join ''-'' [] = ''''" "join ''-'' [''a''] = ''a''" "join ''-'' [''a'', ''b'', ''c''] = ''a-b-c''"
  by simp_all

section \<open>One step of the loop\<close>

text \<open>
  The member a file becomes when it is packed, read from a directory \<open>d\<close>: none if the
  file cannot be read there. \<open>members\<close> are the members of all bundles of a state, in the
  order of the bundles.
\<close>

definition member_of :: "(char \<Rightarrow> bool) \<Rightarrow> directory \<Rightarrow> string \<Rightarrow> member list" where
  "member_of w d f =
     (case read_text d f of
        None \<Rightarrow> []
      | Some c \<Rightarrow> [\<lparr>m_file = f, m_words = count_words_text w c, m_text = heading f c\<rparr>])"

definition members :: "packer \<Rightarrow> member list" where
  "members s = concat (map b_members (combined_files s))"

lemma loop_rule:
  assumes "loop w mw lg fs s = Inr s'"
    and "I [] s"
    and "\<And>pre f t t'. I pre t \<Longrightarrow> f \<in> set fs \<Longrightarrow> body w mw lg f t = Inr t' \<Longrightarrow> I (pre @ [f]) t'"
  shows "I fs s'"
  using assms
proof (induction fs arbitrary: s I)
  case Nil
  then show ?case by simp
next
  case (Cons f fs)
  from Cons.prems(1) obtain t where b: "body w mw lg f s = Inr t"
    and l: "loop w mw lg fs t = Inr s'"
    by (auto split: sum.splits)
  have "(\<lambda>pre. I (f # pre)) fs s'"
  proof (rule Cons.IH [OF l])
    show "I (f # []) t" using Cons.prems(3) [OF Cons.prems(2) _ b] by simp
  next
    fix pre g u u'
    assume "I (f # pre) u" "g \<in> set fs" "body w mw lg g u = Inr u'"
    then show "I (f # pre @ [g]) u'"
      using Cons.prems(3) [of "f # pre" u g u'] by simp
  qed
  then show ?case .
qed

lemma write_text_Some:
  assumes "write_text d p c = Some d'"
  shows "map_of d' = (map_of d)(p \<mapsto> Regular c)"
    and "map fst d' = (if p \<in> set (map fst d) then map fst d else map fst d @ [p])"
    and "set d' \<subseteq> insert (p, Regular c) (set d)"
proof -
  from assms have d': "d' = AList.update p (Regular c) d"
    by (auto simp: write_text_def split: option.splits node.splits)
  show "map_of d' = (map_of d)(p \<mapsto> Regular c)" by (simp add: d' update_conv')
  show "map fst d' = (if p \<in> set (map fst d) then map fst d else map fst d @ [p])"
    unfolding d' by (rule update_keys)
  show "set d' \<subseteq> insert (p, Regular c) (set d)"
    unfolding d' by (induction d) auto
qed

lemma write_text_read:
  "write_text d p c = Some d' \<Longrightarrow> read_text d' f = (if f = p then Some c else read_text d f)"
  by (simp add: read_text_def write_text_Some(1))

lemma discover_append_packed:
  assumes "prefix ''packed_'' p"
  shows "discover (d @ [(p, x)]) = discover d"
  using assms stem_prefix_packed [of p] by (auto simp: discover_def)

lemma write_text_discover:
  assumes "write_text d p c = Some d'" "prefix ''packed_'' p"
  shows "discover d' = discover d"
proof -
  have "\<not> (suffix ''.md'' p \<and> \<not> prefix ''packed_'' (stem p))"
    using assms(2) stem_prefix_packed [of p] by auto
  then show ?thesis
    using write_text_Some(2) [OF assms(1)] by (auto simp: discover_def)
qed

text \<open>What a successful write of the current bundle changes.\<close>

lemma write_bundle_Inr:
  assumes "write_bundle s = Inr s'"
  shows "\<exists>d. write_text (files s) (output_path (current_file_index s))
              (join delimiter (map m_text (current_content s))) = Some d \<and>
          s' = s\<lparr>files := d,
                 combined_files := combined_files s @
                   [\<lparr>b_path = output_path (current_file_index s),
                     b_members = current_content s, b_words = current_word_count s\<rparr>],
                 trace := trace s @ [Open_write (output_path (current_file_index s))]\<rparr>"
  using assms by (auto simp: write_bundle_def Let_def split: option.splits)

lemma flush_Inr:
  assumes "flush s = Inr s'"
  shows "\<exists>d. write_text (files s) (output_path (current_file_index s))
              (join delimiter (map m_text (current_content s))) = Some d \<and>
          s' = s\<lparr>files := d,
                 combined_files := combined_files s @
                   [\<lparr>b_path = output_path (current_file_index s),
                     b_members = current_content s, b_words = current_word_count s\<rparr>],
                 trace := trace s @ [Open_write (output_path (current_file_index s))],
                 current_file_index := current_file_index s + 1,
                 current_word_count := 0,
                 current_content := []\<rparr>"
proof -
  from assms obtain t where t: "write_bundle s = Inr t"
    and s': "s' = t\<lparr>current_file_index := current_file_index t + 1,
                 current_word_count := 0, current_content := []\<rparr>"
    by (auto simp: flush_def split: sum.splits)
  from write_bundle_Inr [OF t] s' show ?thesis by auto
qed


lemma not_packed_output: "\<not> prefix ''packed_'' f \<Longrightarrow> f \<noteq> output_path i"
  using prefix_output_path [of i] by auto

text \<open>
  The body of the loop for a file that is not an output of the packer: the state it leaves,
  in terms of the state it starts from.
\<close>

definition words_of :: "(char \<Rightarrow> bool) \<Rightarrow> directory \<Rightarrow> string \<Rightarrow> nat" where
  "words_of w d f = (case read_text d f of None \<Rightarrow> 0 | Some c \<Rightarrow> count_words_text w c)"

definition read_events :: "bool \<Rightarrow> directory \<Rightarrow> string \<Rightarrow> event list \<times> event list" where
  "read_events lg d f =
     (case read_text d f of
        Some c \<Rightarrow> ([Open_read f], [Open_read f])
      | None \<Rightarrow> ([Open_read f, Logging_error f],
                 Open_read f # (if lg then [Logger_error f] else [])))"

lemma count_words_eq:
  "count_words w d f = (words_of w d f, fst (read_events lg d f))"
  by (simp add: count_words_def words_of_def read_events_def split: option.splits)

lemma member_of_words:
  "sum_list (map m_words (member_of w d f)) = words_of w d f"
  by (simp add: member_of_def words_of_def split: option.splits)

lemma add_file_eq:
  "add_file lg f (words_of w (files s) f) s =
     s\<lparr>current_content := current_content s @ member_of w (files s) f,
       current_word_count := current_word_count s + words_of w (files s) f,
       trace := trace s @ snd (read_events lg (files s) f)\<rparr>"
  by (simp add: add_file_def member_of_def words_of_def read_events_def split: option.splits)

lemma body_no_flush:
  assumes "\<not> flush_due mw s (words_of w (files s) f)"
  shows "body w mw lg f s =
     Inr (s\<lparr>current_content := current_content s @ member_of w (files s) f,
            current_word_count := current_word_count s + words_of w (files s) f,
            trace := trace s @ fst (read_events lg (files s) f) @
                     snd (read_events lg (files s) f)\<rparr>)"
proof -
  let ?s1 = "s\<lparr>trace := trace s @ fst (read_events lg (files s) f)\<rparr>"
  have nd: "\<not> flush_due mw ?s1 (words_of w (files s) f)"
    using assms by (simp add: flush_due_def)
  have "body w mw lg f s = Inr (add_file lg f (words_of w (files ?s1) f) ?s1)"
    using nd by (simp add: body_def count_words_eq [of w "files s" f lg])
  then show ?thesis by (simp only: add_file_eq) simp
qed

lemma body_flush:
  assumes due: "flush_due mw s (words_of w (files s) f)"
    and np: "\<not> prefix ''packed_'' f"
    and b: "body w mw lg f s = Inr s'"
  shows "\<exists>d. write_text (files s) (output_path (current_file_index s))
              (join delimiter (map m_text (current_content s))) = Some d \<and>
     s' = s\<lparr>files := d,
            combined_files := combined_files s @
              [\<lparr>b_path = output_path (current_file_index s),
                b_members = current_content s, b_words = current_word_count s\<rparr>],
            current_file_index := current_file_index s + 1,
            current_content := member_of w (files s) f,
            current_word_count := words_of w (files s) f,
            trace := trace s @ fst (read_events lg (files s) f) @
                     [Open_write (output_path (current_file_index s))] @
                     snd (read_events lg (files s) f)\<rparr>"
proof -
  let ?s1 = "s\<lparr>trace := trace s @ fst (read_events lg (files s) f)\<rparr>"
  let ?wc = "words_of w (files s) f"
  have d1: "flush_due mw ?s1 ?wc"
    using due by (simp add: flush_due_def)
  from b d1 obtain s2 where f2: "flush ?s1 = Inr s2" and s': "s' = add_file lg f ?wc s2"
    by (auto simp: body_def count_words_eq [of w "files s" f lg] split: sum.splits)
  from flush_Inr [OF f2] obtain d where
    wt: "write_text (files s) (output_path (current_file_index s))
              (join delimiter (map m_text (current_content s))) = Some d"
    and s2: "s2 = ?s1\<lparr>files := d,
                 combined_files := combined_files ?s1 @
                   [\<lparr>b_path = output_path (current_file_index ?s1),
                     b_members = current_content ?s1, b_words = current_word_count ?s1\<rparr>],
                 trace := trace ?s1 @ [Open_write (output_path (current_file_index ?s1))],
                 current_file_index := current_file_index ?s1 + 1,
                 current_word_count := 0,
                 current_content := []\<rparr>"
    by auto
  have rd: "read_text d f = read_text (files s) f"
    using write_text_read [OF wt, of f] not_packed_output [OF np] by simp
  have fs2: "files s2 = d" by (simp add: s2)
  have same: "words_of w (files s2) f = ?wc" "member_of w (files s2) f = member_of w (files s) f"
    "read_events lg (files s2) f = read_events lg (files s) f"
    by (simp_all add: fs2 words_of_def member_of_def read_events_def rd)
  have "s' = add_file lg f (words_of w (files s2) f) s2"
    using s' same by simp
  also have "\<dots> = s2\<lparr>current_content := current_content s2 @ member_of w (files s2) f,
       current_word_count := current_word_count s2 + words_of w (files s2) f,
       trace := trace s2 @ snd (read_events lg (files s2) f)\<rparr>"
    by (rule add_file_eq)
  finally have "s' = s2\<lparr>current_content := current_content s2 @ member_of w (files s) f,
       current_word_count := current_word_count s2 + ?wc,
       trace := trace s2 @ snd (read_events lg (files s) f)\<rparr>"
    by (simp only: same)
  then have "s' = s\<lparr>files := d,
            combined_files := combined_files s @
              [\<lparr>b_path = output_path (current_file_index s),
                b_members = current_content s, b_words = current_word_count s\<rparr>],
            current_file_index := current_file_index s + 1,
            current_content := member_of w (files s) f,
            current_word_count := ?wc,
            trace := trace s @ fst (read_events lg (files s) f) @
                     [Open_write (output_path (current_file_index s))] @
                     snd (read_events lg (files s) f)\<rparr>"
    by (simp add: s2)
  with wt show ?thesis by blast
qed


lemma body_step:
  assumes np: "\<not> prefix ''packed_'' f"
    and b: "body w mw lg f s = Inr s'"
  obtains (keep) "\<not> flush_due mw s (words_of w (files s) f)"
      "s' = s\<lparr>current_content := current_content s @ member_of w (files s) f,
            current_word_count := current_word_count s + words_of w (files s) f,
            trace := trace s @ fst (read_events lg (files s) f) @
                     snd (read_events lg (files s) f)\<rparr>"
  | (flushed) d where "flush_due mw s (words_of w (files s) f)"
      "write_text (files s) (output_path (current_file_index s))
              (join delimiter (map m_text (current_content s))) = Some d"
      "s' = s\<lparr>files := d,
            combined_files := combined_files s @
              [\<lparr>b_path = output_path (current_file_index s),
                b_members = current_content s, b_words = current_word_count s\<rparr>],
            current_file_index := current_file_index s + 1,
            current_content := member_of w (files s) f,
            current_word_count := words_of w (files s) f,
            trace := trace s @ fst (read_events lg (files s) f) @
                     [Open_write (output_path (current_file_index s))] @
                     snd (read_events lg (files s) f)\<rparr>"
proof (cases "flush_due mw s (words_of w (files s) f)")
  case True
  from body_flush [OF True np b] obtain d where
    "write_text (files s) (output_path (current_file_index s))
              (join delimiter (map m_text (current_content s))) = Some d"
    "s' = s\<lparr>files := d,
            combined_files := combined_files s @
              [\<lparr>b_path = output_path (current_file_index s),
                b_members = current_content s, b_words = current_word_count s\<rparr>],
            current_file_index := current_file_index s + 1,
            current_content := member_of w (files s) f,
            current_word_count := words_of w (files s) f,
            trace := trace s @ fst (read_events lg (files s) f) @
                     [Open_write (output_path (current_file_index s))] @
                     snd (read_events lg (files s) f)\<rparr>"
    by blast
  with True show ?thesis by (rule flushed)
next
  case False
  from body_no_flush [OF False, of lg] b have
    "s' = s\<lparr>current_content := current_content s @ member_of w (files s) f,
            current_word_count := current_word_count s + words_of w (files s) f,
            trace := trace s @ fst (read_events lg (files s) f) @
                     snd (read_events lg (files s) f)\<rparr>"
    by simp
  with False show ?thesis by (rule keep)
qed

text \<open>The directory agrees with the one the run started from, outside the packer's outputs.\<close>

definition agrees :: "directory \<Rightarrow> directory \<Rightarrow> bool" where
  "agrees d0 d \<longleftrightarrow>
     (\<forall>f. \<not> prefix ''packed_'' f \<longrightarrow> read_text d f = read_text d0 f) \<and> discover d = discover d0"

lemma agrees_refl: "agrees d d"
  by (simp add: agrees_def)

lemma agrees_write:
  assumes "agrees d0 d" "write_text d (output_path i) c = Some d'"
  shows "agrees d0 d'"
  using assms write_text_discover [OF assms(2) prefix_output_path]
    write_text_read [OF assms(2)] not_packed_output
  by (auto simp: agrees_def)

lemma agrees_same:
  assumes "agrees d0 d" "\<not> prefix ''packed_'' f"
  shows "member_of w d f = member_of w d0 f" "words_of w d f = words_of w d0 f"
    "read_events lg d f = read_events lg d0 f"
  using assms by (simp_all add: agrees_def member_of_def words_of_def read_events_def)

lemma body_agrees:
  assumes "\<not> prefix ''packed_'' f" "body w mw lg f s = Inr s'" "agrees d0 (files s)"
  shows "agrees d0 (files s')"
  using assms(1,2)
proof (cases rule: body_step)
  case keep
  then show ?thesis using assms(3) by simp
next
  case (flushed d)
  then show ?thesis using agrees_write [OF assms(3)] by simp
qed

text \<open>The members packed so far, and the totals.\<close>

definition inv_members :: "(char \<Rightarrow> bool) \<Rightarrow> directory \<Rightarrow> string list \<Rightarrow> packer \<Rightarrow> bool" where
  "inv_members w d0 pre s \<longleftrightarrow>
     agrees d0 (files s) \<and>
     members s @ current_content s = concat (map (member_of w d0) pre) \<and>
     current_word_count s = sum_list (map m_words (current_content s)) \<and>
     (\<forall>b \<in> set (combined_files s).
        b_members b \<noteq> [] \<and> b_words b = sum_list (map m_words (b_members b)))"

lemma body_inv_members:
  assumes np: "\<not> prefix ''packed_'' f" and b: "body w mw lg f s = Inr s'"
    and i: "inv_members w d0 pre s"
  shows "inv_members w d0 (pre @ [f]) s'"
proof -
  from i have ag: "agrees d0 (files s)" by (simp add: inv_members_def)
  note same = agrees_same [OF ag np]
  note ag' = body_agrees [OF np b ag]
  from np b show ?thesis
  proof (cases rule: body_step)
    case keep
    then show ?thesis
      using i ag' by (simp add: inv_members_def members_def same member_of_words)
  next
    case (flushed d)
    from flushed(1) have "0 < current_word_count s" by (simp add: flush_due_def)
    with i have ne: "current_content s \<noteq> []" by (auto simp: inv_members_def)
    show ?thesis
      using i ag' ne unfolding flushed(3)
      by (auto simp: inv_members_def members_def same member_of_words)
  qed
qed


text \<open>The paths of the bundles written so far, and what the directory holds at them.\<close>

definition inv_paths :: "packer \<Rightarrow> bool" where
  "inv_paths s \<longleftrightarrow>
     map b_path (combined_files s) = map output_path [0..<current_file_index s] \<and>
     (\<forall>b \<in> set (combined_files s).
        read_text (files s) (b_path b) = Some (join delimiter (map m_text (b_members b))))"

lemma inv_paths_write:
  assumes i: "inv_paths s"
    and wt: "write_text (files s) (output_path (current_file_index s)) c = Some d"
    and b: "b \<in> set (combined_files s)"
  shows "read_text d (b_path b) = Some (join delimiter (map m_text (b_members b)))"
proof -
  from b have "b_path b \<in> set (map b_path (combined_files s))" by simp
  with i have "b_path b \<in> output_path ` {0..<current_file_index s}"
    by (simp add: inv_paths_def)
  then obtain j where j: "j < current_file_index s" "b_path b = output_path j" by auto
  then have "b_path b \<noteq> output_path (current_file_index s)"
    by (simp add: output_path_inj)
  then show ?thesis
    using write_text_read [OF wt, of "b_path b"] i b by (simp add: inv_paths_def)
qed

lemma body_inv_paths:
  assumes np: "\<not> prefix ''packed_'' f" and b: "body w mw lg f s = Inr s'"
    and i: "inv_paths s"
  shows "inv_paths s'"
  using np b
proof (cases rule: body_step)
  case keep
  then show ?thesis using i by (simp add: inv_paths_def)
next
  case (flushed d)
  have new: "read_text d (output_path (current_file_index s)) =
      Some (join delimiter (map m_text (current_content s)))"
    using write_text_read [OF flushed(2)] by simp
  show ?thesis
    unfolding flushed(3) using i new inv_paths_write [OF i flushed(2)]
    by (auto simp: inv_paths_def)
qed

text \<open>The files opened and the failures logged so far.\<close>

fun reads_of :: "event list \<Rightarrow> string list" where
  "reads_of [] = []"
| "reads_of (Open_read p # es) = p # reads_of es"
| "reads_of (e # es) = reads_of es"

fun writes_of :: "event list \<Rightarrow> string list" where
  "writes_of [] = []"
| "writes_of (Open_write p # es) = p # writes_of es"
| "writes_of (e # es) = writes_of es"

lemma reads_of_append: "reads_of (xs @ ys) = reads_of xs @ reads_of ys"
  by (induction xs rule: reads_of.induct) simp_all

lemma writes_of_append: "writes_of (xs @ ys) = writes_of xs @ writes_of ys"
  by (induction xs rule: writes_of.induct) simp_all

lemma read_events_facts:
  "reads_of (fst (read_events lg d f)) = [f]" "reads_of (snd (read_events lg d f)) = [f]"
  "writes_of (fst (read_events lg d f)) = []" "writes_of (snd (read_events lg d f)) = []"
  "Logging_error g \<in> set (fst (read_events lg d f)) \<longleftrightarrow> g = f \<and> read_text d f = None"
  "Logging_error g \<notin> set (snd (read_events lg d f))"
  "Logger_error g \<notin> set (fst (read_events lg d f))"
  "Logger_error g \<in> set (snd (read_events lg d f)) \<longleftrightarrow> lg \<and> g = f \<and> read_text d f = None"
  by (auto simp: read_events_def split: option.splits)

definition inv_trace :: "bool \<Rightarrow> directory \<Rightarrow> string list \<Rightarrow> packer \<Rightarrow> bool" where
  "inv_trace lg d0 pre s \<longleftrightarrow>
     agrees d0 (files s) \<and>
     reads_of (trace s) = concat (map (\<lambda>f. [f, f]) pre) \<and>
     writes_of (trace s) = map b_path (combined_files s) \<and>
     (\<forall>g. Logging_error g \<in> set (trace s) \<longleftrightarrow> g \<in> set pre \<and> read_text d0 g = None) \<and>
     (\<forall>g. Logger_error g \<in> set (trace s) \<longleftrightarrow> lg \<and> g \<in> set pre \<and> read_text d0 g = None)"

lemma body_inv_trace:
  assumes np: "\<not> prefix ''packed_'' f" and b: "body w mw lg f s = Inr s'"
    and i: "inv_trace lg d0 pre s"
  shows "inv_trace lg d0 (pre @ [f]) s'"
proof -
  from i have ag: "agrees d0 (files s)" by (simp add: inv_trace_def)
  note same = agrees_same(3) [OF ag np]
  note ag' = body_agrees [OF np b ag]
  from np b show ?thesis
  proof (cases rule: body_step)
    case keep
    show ?thesis
      using i ag' unfolding keep(2)
      by (auto simp: inv_trace_def same reads_of_append writes_of_append read_events_facts)
  next
    case (flushed d)
    show ?thesis
      using i ag' unfolding flushed(3)
      by (auto simp: inv_trace_def same reads_of_append writes_of_append read_events_facts)
  qed
qed

text \<open>The threshold: what the test of line 155 guarantees for the totals.\<close>

definition within :: "int \<Rightarrow> member list \<Rightarrow> bool" where
  "within mw ms \<longleftrightarrow>
     int (sum_list (map m_words ms)) \<le> mw \<or> sum_list (map m_words (butlast ms)) = 0"

definition inv_threshold :: "int \<Rightarrow> packer \<Rightarrow> bool" where
  "inv_threshold mw s \<longleftrightarrow>
     current_word_count s = sum_list (map m_words (current_content s)) \<and>
     within mw (current_content s) \<and>
     (\<forall>b \<in> set (combined_files s). within mw (b_members b))"

lemma within_member_of: "within mw (member_of w d f)"
  by (simp add: within_def member_of_def split: option.splits)

lemma within_append:
  assumes "within mw ms"
    and "\<not> (0 < sum_list (map m_words ms) \<and>
            mw < int (sum_list (map m_words ms) + words_of w d f))"
  shows "within mw (ms @ member_of w d f)"
proof (cases "read_text d f")
  case None
  then show ?thesis using assms(1) by (simp add: member_of_def)
next
  case (Some c)
  then show ?thesis
    using assms(2) by (auto simp: within_def member_of_def words_of_def)
qed

lemma body_inv_threshold:
  assumes np: "\<not> prefix ''packed_'' f" and b: "body w mw lg f s = Inr s'"
    and i: "inv_threshold mw s"
  shows "inv_threshold mw s'"
  using np b
proof (cases rule: body_step)
  case keep
  from i have cw: "current_word_count s = sum_list (map m_words (current_content s))"
    and wi: "within mw (current_content s)"
    by (simp_all add: inv_threshold_def)
  have "within mw (current_content s @ member_of w (files s) f)"
    using wi keep(1) unfolding flush_due_def cw by (rule within_append)
  then show ?thesis
    using i unfolding keep(2) by (simp add: inv_threshold_def member_of_words)
next
  case (flushed d)
  show ?thesis
    using i unfolding flushed(3)
    by (auto simp: inv_threshold_def member_of_words within_member_of)
qed


text \<open>When no write can fail: no directory stands where the packer writes.\<close>

definition writable :: "directory \<Rightarrow> bool" where
  "writable d = list_all (\<lambda>(n, x). x = Directory \<longrightarrow> \<not> prefix ''packed_'' n) d"

lemma writable_write:
  assumes "writable d"
  shows "\<exists>d'. write_text d (output_path i) c = Some d' \<and> writable d'"
proof -
  have "map_of d (output_path i) \<noteq> Some Directory"
  proof
    assume "map_of d (output_path i) = Some Directory"
    then have "(output_path i, Directory) \<in> set d" by (rule map_of_SomeD)
    with assms have "\<not> prefix ''packed_'' (output_path i)"
      by (auto simp: writable_def list_all_iff)
    then show False by (simp add: prefix_output_path)
  qed
  then have "write_text d (output_path i) c = Some (AList.update (output_path i) (Regular c) d)"
    by (simp add: write_text_def split: option.splits node.splits)
  then obtain d' where wt: "write_text d (output_path i) c = Some d'" by blast
  have "set d' \<subseteq> insert (output_path i, Regular c) (set d)"
    by (rule write_text_Some(3) [OF wt])
  with assms have "writable d'"
    by (auto simp: writable_def list_all_iff)
  with wt show ?thesis by blast
qed

lemma writable_write_bundle:
  assumes "writable (files s)"
  shows "\<exists>s'. write_bundle s = Inr s' \<and> writable (files s')"
proof -
  from writable_write [OF assms] obtain d' where
    "write_text (files s) (output_path (current_file_index s))
       (join delimiter (map m_text (current_content s))) = Some d'" "writable d'"
    by blast
  then show ?thesis by (simp add: write_bundle_def Let_def)
qed

lemma writable_flush:
  assumes "writable (files s)"
  shows "\<exists>s'. flush s = Inr s' \<and> writable (files s')"
  using writable_write_bundle [OF assms] by (auto simp: flush_def)

lemma files_add_file: "files (add_file lg f n s) = files s"
  by (simp add: add_file_def split: option.splits)

lemma writable_body:
  assumes "writable (files s)"
  shows "\<exists>s'. body w mw lg f s = Inr s' \<and> writable (files s')"
proof -
  obtain n evs where c: "count_words w (files s) f = (n, evs)" by (cases "count_words w (files s) f")
  let ?s1 = "s\<lparr>trace := trace s @ evs\<rparr>"
  have w1: "writable (files ?s1)" using assms by simp
  show ?thesis
  proof (cases "flush_due mw ?s1 n")
    case True
    from writable_flush [OF w1] obtain s2 where "flush ?s1 = Inr s2" "writable (files s2)"
      by blast
    then show ?thesis using True c by (simp add: body_def files_add_file)
  next
    case False
    then show ?thesis using c assms by (simp add: body_def files_add_file)
  qed
qed

lemma writable_loop:
  "writable (files s) \<Longrightarrow> \<exists>s'. loop w mw lg fs s = Inr s' \<and> writable (files s')"
proof (induction fs arbitrary: s)
  case Nil
  then show ?case by simp
next
  case (Cons f fs)
  from writable_body [OF Cons.prems] obtain t where
    t: "body w mw lg f s = Inr t" "writable (files t)" by blast
  from Cons.IH [OF t(2)] t(1) show ?case by simp
qed

lemma writable_combine:
  assumes "writable d"
  shows "\<exists>r. combine_markdown_files w d mw lg = Inr r"
proof -
  have "writable (files (start d))" using assms by (simp add: start_def)
  from writable_loop [OF this] obtain s where
    s: "loop w mw lg (sort (discover d)) (start d) = Inr s" "writable (files s)" by blast
  from writable_write_bundle [OF s(2)] obtain r where "write_bundle s = Inr r" by blast
  with s(1) show ?thesis by (simp add: combine_markdown_files_def Let_def)
qed

text \<open>The three ways a run ends.\<close>

lemma combine_cases:
  assumes "combine_markdown_files w d mw lg = Inr r"
  obtains (empty) "discover d = []"
      "r = (start d)\<lparr>trace := (if lg then [Logger_warning] else [])\<rparr>"
  | (clean) "discover d \<noteq> []"
      "loop w mw lg (sort (discover d)) (start d) = Inr r" "current_content r = []"
  | (final) s d' where "discover d \<noteq> []"
      "loop w mw lg (sort (discover d)) (start d) = Inr s" "current_content s \<noteq> []"
      "write_text (files s) (output_path (current_file_index s))
              (join delimiter (map m_text (current_content s))) = Some d'"
      "r = s\<lparr>files := d',
             combined_files := combined_files s @
               [\<lparr>b_path = output_path (current_file_index s),
                 b_members = current_content s, b_words = current_word_count s\<rparr>],
             trace := trace s @ [Open_write (output_path (current_file_index s))]\<rparr>"
proof (cases "discover d = []")
  case True
  with assms have "r = (start d)\<lparr>trace := (if lg then [Logger_warning] else [])\<rparr>"
    by (simp add: combine_markdown_files_def)
  with True show ?thesis by (rule empty)
next
  case False
  with assms obtain s where l: "loop w mw lg (sort (discover d)) (start d) = Inr s"
    and f: "(if current_content s \<noteq> [] then write_bundle s else Inr s) = Inr r"
    by (auto simp: combine_markdown_files_def Let_def split: sum.splits)
  show ?thesis
  proof (cases "current_content s = []")
    case True
    with f have "r = s" by simp
    with False l True show ?thesis by (auto intro: clean)
  next
    case ne: False
    with f have "write_bundle s = Inr r" by simp
    from write_bundle_Inr [OF this] obtain d' where
      "write_text (files s) (output_path (current_file_index s))
              (join delimiter (map m_text (current_content s))) = Some d'"
      "r = s\<lparr>files := d',
             combined_files := combined_files s @
               [\<lparr>b_path = output_path (current_file_index s),
                 b_members = current_content s, b_words = current_word_count s\<rparr>],
             trace := trace s @ [Open_write (output_path (current_file_index s))]\<rparr>"
      by blast
    with False l ne show ?thesis by (rule final)
  qed
qed

lemma sorted_discover_not_packed:
  "f \<in> set (sort (discover d)) \<Longrightarrow> \<not> prefix ''packed_'' f"
  using discover_not_packed [of f d] by simp

lemma loop_inv_members:
  assumes "loop w mw lg (sort (discover d)) (start d) = Inr s"
  shows "inv_members w d (sort (discover d)) s"
proof (rule loop_rule [OF assms, where I = "inv_members w d"])
  show "inv_members w d [] (start d)"
    by (simp add: inv_members_def start_def members_def agrees_refl)
next
  fix pre f t t'
  assume "inv_members w d pre t" "f \<in> set (sort (discover d))" "body w mw lg f t = Inr t'"
  then show "inv_members w d (pre @ [f]) t'"
    using body_inv_members sorted_discover_not_packed by blast
qed

lemma loop_inv_paths:
  assumes "loop w mw lg (sort (discover d)) (start d) = Inr s"
  shows "inv_paths s"
proof (rule loop_rule [OF assms, where I = "\<lambda>pre. inv_paths"])
  show "inv_paths (start d)"
    by (simp add: inv_paths_def start_def)
next
  fix pre f t t'
  assume "inv_paths t" "f \<in> set (sort (discover d))" "body w mw lg f t = Inr t'"
  then show "inv_paths t'"
    using body_inv_paths sorted_discover_not_packed by blast
qed

lemma loop_inv_trace:
  assumes "loop w mw lg (sort (discover d)) (start d) = Inr s"
  shows "inv_trace lg d (sort (discover d)) s"
proof (rule loop_rule [OF assms, where I = "inv_trace lg d"])
  show "inv_trace lg d [] (start d)"
    by (simp add: inv_trace_def start_def agrees_refl)
next
  fix pre f t t'
  assume "inv_trace lg d pre t" "f \<in> set (sort (discover d))" "body w mw lg f t = Inr t'"
  then show "inv_trace lg d (pre @ [f]) t'"
    using body_inv_trace sorted_discover_not_packed by blast
qed

lemma loop_inv_threshold:
  assumes "loop w mw lg (sort (discover d)) (start d) = Inr s"
  shows "inv_threshold mw s"
proof (rule loop_rule [OF assms, where I = "\<lambda>pre. inv_threshold mw"])
  show "inv_threshold mw (start d)"
    by (simp add: inv_threshold_def start_def within_def)
next
  fix pre f t t'
  assume "inv_threshold mw t" "f \<in> set (sort (discover d))" "body w mw lg f t = Inr t'"
  then show "inv_threshold mw t'"
    using body_inv_threshold sorted_discover_not_packed by blast
qed

section \<open>The result of a run\<close>

lemma inv_paths_length: "inv_paths s \<Longrightarrow> length (combined_files s) = current_file_index s"
proof -
  assume "inv_paths s"
  then have "length (map b_path (combined_files s)) = length (map output_path [0..<current_file_index s])"
    by (simp only: inv_paths_def)
  then show ?thesis by simp
qed

lemma combine_agrees:
  assumes "combine_markdown_files w d mw lg = Inr r"
  shows "agrees d (files r)"
  using assms
proof (cases rule: combine_cases)
  case empty
  then show ?thesis by (simp add: start_def agrees_refl)
next
  case clean
  from loop_inv_members [OF clean(2)] show ?thesis by (simp add: inv_members_def)
next
  case (final s d')
  from loop_inv_members [OF final(2)] have "agrees d (files s)" by (simp add: inv_members_def)
  from agrees_write [OF this final(4)] show ?thesis by (simp add: final(5))
qed

lemma combine_members:
  assumes "combine_markdown_files w d mw lg = Inr r"
  shows "members r = concat (map (member_of w d) (sort (discover d)))"
  using assms
proof (cases rule: combine_cases)
  case empty
  then show ?thesis by (simp add: start_def members_def)
next
  case clean
  from loop_inv_members [OF clean(2)] clean(3) show ?thesis by (simp add: inv_members_def)
next
  case (final s d')
  from loop_inv_members [OF final(2)] show ?thesis
    by (simp add: final(5) inv_members_def members_def)
qed

lemma combine_totals:
  assumes "combine_markdown_files w d mw lg = Inr r" "b \<in> set (combined_files r)"
  shows "b_members b \<noteq> []" "b_words b = sum_list (map m_words (b_members b))"
proof -
  have "b_members b \<noteq> [] \<and> b_words b = sum_list (map m_words (b_members b))"
    using assms(1)
  proof (cases rule: combine_cases)
    case empty
    with assms(2) show ?thesis by (simp add: start_def)
  next
    case clean
    from loop_inv_members [OF clean(2)] assms(2) show ?thesis by (simp add: inv_members_def)
  next
    case (final s d')
    from loop_inv_members [OF final(2)] assms(2) final(3) show ?thesis
      by (auto simp: final(5) inv_members_def)
  qed
  then show "b_members b \<noteq> []" "b_words b = sum_list (map m_words (b_members b))"
    by simp_all
qed

lemma combine_paths:
  assumes "combine_markdown_files w d mw lg = Inr r"
  shows "map b_path (combined_files r) = map output_path [0..<length (combined_files r)]"
  using assms
proof (cases rule: combine_cases)
  case empty
  then show ?thesis by (simp add: start_def)
next
  case clean
  from loop_inv_paths [OF clean(2)] have i: "inv_paths r" .
  then show ?thesis using inv_paths_length [OF i] by (simp add: inv_paths_def)
next
  case (final s d')
  from loop_inv_paths [OF final(2)] have i: "inv_paths s" .
  then show ?thesis using inv_paths_length [OF i] by (simp add: inv_paths_def final(5))
qed

lemma combine_written:
  assumes "combine_markdown_files w d mw lg = Inr r" "b \<in> set (combined_files r)"
  shows "read_text (files r) (b_path b) = Some (join delimiter (map m_text (b_members b)))"
  using assms(1)
proof (cases rule: combine_cases)
  case empty
  with assms(2) show ?thesis by (simp add: start_def)
next
  case clean
  from loop_inv_paths [OF clean(2)] assms(2) show ?thesis by (simp add: inv_paths_def)
next
  case (final s d')
  from loop_inv_paths [OF final(2)] have i: "inv_paths s" .
  from assms(2) have "b \<in> set (combined_files s) \<or>
      b = \<lparr>b_path = output_path (current_file_index s),
           b_members = current_content s, b_words = current_word_count s\<rparr>"
    by (auto simp: final(5))
  then show ?thesis
  proof
    assume "b \<in> set (combined_files s)"
    from inv_paths_write [OF i final(4) this] show ?thesis by (simp add: final(5))
  next
    assume "b = \<lparr>b_path = output_path (current_file_index s),
           b_members = current_content s, b_words = current_word_count s\<rparr>"
    then show ?thesis using write_text_read [OF final(4)] by (simp add: final(5))
  qed
qed

lemma combine_trace:
  assumes "combine_markdown_files w d mw lg = Inr r"
  shows "reads_of (trace r) = concat (map (\<lambda>f. [f, f]) (sort (discover d)))"
    and "writes_of (trace r) = map b_path (combined_files r)"
    and "Logging_error g \<in> set (trace r) \<longleftrightarrow> g \<in> set (discover d) \<and> read_text d g = None"
    and "Logger_error g \<in> set (trace r) \<longleftrightarrow> lg \<and> g \<in> set (discover d) \<and> read_text d g = None"
proof -
  have "reads_of (trace r) = concat (map (\<lambda>f. [f, f]) (sort (discover d))) \<and>
    writes_of (trace r) = map b_path (combined_files r) \<and>
    (Logging_error g \<in> set (trace r) \<longleftrightarrow> g \<in> set (discover d) \<and> read_text d g = None) \<and>
    (Logger_error g \<in> set (trace r) \<longleftrightarrow> lg \<and> g \<in> set (discover d) \<and> read_text d g = None)"
    using assms
  proof (cases rule: combine_cases)
    case empty
    then show ?thesis by (simp add: start_def)
  next
    case clean
    from loop_inv_trace [OF clean(2)] show ?thesis by (simp add: inv_trace_def)
  next
    case (final s d')
    from loop_inv_trace [OF final(2)] show ?thesis
      by (simp add: inv_trace_def final(5) reads_of_append writes_of_append)
  qed
  then show "reads_of (trace r) = concat (map (\<lambda>f. [f, f]) (sort (discover d)))"
    and "writes_of (trace r) = map b_path (combined_files r)"
    and "Logging_error g \<in> set (trace r) \<longleftrightarrow> g \<in> set (discover d) \<and> read_text d g = None"
    and "Logger_error g \<in> set (trace r) \<longleftrightarrow> lg \<and> g \<in> set (discover d) \<and> read_text d g = None"
    by simp_all
qed

lemma combine_within:
  assumes "combine_markdown_files w d mw lg = Inr r" "b \<in> set (combined_files r)"
  shows "within mw (b_members b)"
  using assms(1)
proof (cases rule: combine_cases)
  case empty
  with assms(2) show ?thesis by (simp add: start_def)
next
  case clean
  from loop_inv_threshold [OF clean(2)] assms(2) show ?thesis by (simp add: inv_threshold_def)
next
  case (final s d')
  from loop_inv_threshold [OF final(2)] assms(2) show ?thesis
    by (auto simp: inv_threshold_def final(5))
qed

lemma m_file_member_of:
  "map m_file (concat (map (member_of w d) fs)) = filter (\<lambda>f. read_text d f \<noteq> None) fs"
  by (induction fs) (auto simp: member_of_def split: option.splits)

lemma discover_by_name:
  "discover d = filter (\<lambda>f. suffix ''.md'' f \<and> \<not> prefix ''packed_'' f) (map fst d)"
proof -
  have "\<And>f. (suffix ''.md'' f \<and> \<not> prefix ''packed_'' (stem f))
     = (suffix ''.md'' f \<and> \<not> prefix ''packed_'' f)"
    using stem_prefix_packed by blast
  then show ?thesis by (simp add: discover_def conj_commute)
qed

lemma member_of_same:
  assumes "agrees d0 d" "\<forall>f \<in> set fs. \<not> prefix ''packed_'' f"
  shows "concat (map (member_of w d) fs) = concat (map (member_of w d0) fs)"
  using assms(2) by (induction fs) (simp_all add: agrees_same(1) [OF assms(1)])

lemma combine_member_files:
  assumes "combine_markdown_files w d mw lg = Inr r"
  shows "map m_file (members r) = filter (\<lambda>f. read_text d f \<noteq> None) (sort (discover d))"
  by (simp add: combine_members [OF assms] m_file_member_of)

lemma writable_combine_files:
  assumes "writable d"
  shows "\<exists>r. combine_markdown_files w d mw lg = Inr r \<and> writable (files r)"
proof -
  have "writable (files (start d))" using assms by (simp add: start_def)
  from writable_loop [OF this] obtain s where
    s: "loop w mw lg (sort (discover d)) (start d) = Inr s" "writable (files s)" by blast
  from writable_write_bundle [OF s(2)] obtain r where
    r: "write_bundle s = Inr r" "writable (files r)" by blast
  show ?thesis
  proof (cases "discover d = []")
    case True
    then show ?thesis using assms by (simp add: combine_markdown_files_def start_def)
  next
    case False
    then show ?thesis using s r by (simp add: combine_markdown_files_def Let_def)
  qed
qed

section \<open>Two directories to evaluate on\<close>

definition example_dir :: directory where
  "example_dir =
     [(''b.md'', Regular ''y z''), (''a.md'', Regular ''x''), (''c.md'', Directory),
      (''packed_0.md'', Regular ''old''), (''notes.txt'', Regular ''n'')]"

lemma example_dir_facts:
  "writable example_dir"
  "discover example_dir = [''b.md'', ''a.md'', ''c.md'']"
  "sort (discover example_dir) = [''a.md'', ''b.md'', ''c.md'']"
  "filter (\<lambda>f. read_text example_dir f \<noteq> None) (sort (discover example_dir)) = [''a.md'', ''b.md'']"
  "distinct (map fst example_dir)"
  "read_text example_dir ''c.md'' = None"
  "read_text example_dir ''a.md'' = Some ''x''"
  "read_text example_dir ''b.md'' = Some ''y z''"
  by code_simp+

definition readable_dir :: directory where
  "readable_dir =
     [(''b.md'', Regular ''y z''), (''a.md'', Regular ''x''),
      (''packed_0.md'', Regular ''old'')]"

lemma readable_dir_facts:
  "writable readable_dir"
  "discover readable_dir = [''b.md'', ''a.md'']"
  "list_all (\<lambda>f. read_text readable_dir f \<noteq> None) (discover readable_dir)"
  by code_simp+

text \<open>
  Three files of one, two and three words: with \<^verbatim>\<open>max_words = 3\<close> the first two share a
  bundle and the third has its own.
\<close>

definition bundle_dir :: directory where
  "bundle_dir =
     [(''b.md'', Regular ''y z''), (''a.md'', Regular ''x''), (''c.md'', Regular ''u v w'')]"

lemma bundle_dir_facts:
  "writable bundle_dir"
  "read_text bundle_dir ''a.md'' = Some ''x''"
  "read_text bundle_dir ''b.md'' = Some ''y z''"
  "read_text bundle_dir ''c.md'' = Some ''u v w''"
  "stem ''a.md'' = ''a''" "stem ''b.md'' = ''b''" "stem ''c.md'' = ''c''"
  "str_nat 0 = ''0''" "str_nat 1 = ''1''"
  by code_simp+

lemma bundle_dir_run:
  "case combine_markdown_files ascii_word bundle_dir 3 False of
     Inl e \<Rightarrow> False
   | Inr r \<Rightarrow> map (\<lambda>b. map m_file (b_members b)) (combined_files r)
               = [[''a.md'', ''b.md''], [''c.md'']]"
  by code_simp

section \<open>What holds of the threshold, and of a single file\<close>

text \<open>
  What the test of line 155 does guarantee, for every bundle of every run: the bundle has a
  member, its total is the sum of its members' counts, and the total is within the threshold
  unless all members but the last have no words.
\<close>

lemma threshold_of_each_bundle:
  assumes "combine_markdown_files w d mw lg = Inr r" and "b \<in> set (combined_files r)"
  shows "b_members b \<noteq> []"
    and "b_words b = sum_list (map m_words (b_members b))"
    and "int (b_words b) \<le> mw \<or> sum_list (map m_words (butlast (b_members b))) = 0"
proof -
  show "b_members b \<noteq> []" by (rule combine_totals(1) [OF assms])
  show t: "b_words b = sum_list (map m_words (b_members b))" by (rule combine_totals(2) [OF assms])
  from combine_within [OF assms]
  show "int (b_words b) \<le> mw \<or> sum_list (map m_words (butlast (b_members b))) = 0"
    by (simp add: within_def t)
qed

text \<open>A directory with a single file: one bundle with that file alone, whatever its size.\<close>

lemma single_file:
  assumes "suffix ''.md'' f" and "\<not> prefix ''packed_'' f"
  shows "\<exists>r. combine_markdown_files w [(f, Regular c)] mw lg = Inr r \<and>
     combined_files r =
       [\<lparr>b_path = ''packed_0.md'',
         b_members = [\<lparr>m_file = f, m_words = count_words_text w c, m_text = heading f c\<rparr>],
         b_words = count_words_text w c\<rparr>]"
proof -
  let ?d = "[(f, Regular c)]"
  let ?m = "\<lparr>m_file = f, m_words = count_words_text w c, m_text = heading f c\<rparr>"
  let ?s = "\<lparr>files = ?d, combined_files = [], current_file_index = 0,
             current_word_count = count_words_text w c, current_content = [?m],
             trace = [Open_read f, Open_read f]\<rparr>"
  have d: "discover ?d = [f]"
    using assms by (simp add: discover_by_name)
  have l: "body w mw lg f (start ?d) = Inr ?s"
    by (simp add: body_def count_words_def read_text_def flush_due_def start_def add_file_def)
  have o: "output_path 0 = ''packed_0.md''"
    by code_simp
  have "f \<noteq> ''packed_0.md''" using assms(2) by auto
  then have "write_bundle ?s =
      Inr (?s\<lparr>files := ?d @ [(''packed_0.md'', Regular (heading f c))],
             combined_files := [\<lparr>b_path = ''packed_0.md'', b_members = [?m],
                                  b_words = count_words_text w c\<rparr>],
             trace := [Open_read f, Open_read f, Open_write ''packed_0.md'']\<rparr>)"
    by (simp add: write_bundle_def write_text_def o Let_def)
  then show ?thesis
    by (simp add: combine_markdown_files_def d l)
qed

lemma runs_words:
  "\<not> w CHR '' '' \<Longrightarrow> w CHR ''a'' \<Longrightarrow> length (runs w (concat (replicate n ''a ''))) = n"
  by (induction n) simp_all

lemma count_words_replicate:
  "count_words_text ascii_word (concat (replicate n ''a '')) = n"
proof -
  have "\<not> ascii_word CHR '' ''" "ascii_word CHR ''a''" by code_simp+
  then show ?thesis
    using findall_runs [of 0 "concat (replicate n ''a '')" ascii_word]
    by (simp add: count_words_text_def runs_words)
qed

lemma oversized_singleton:
  "\<exists>r. combine_markdown_files ascii_word
          [(''huge.md'', Regular (concat (replicate 200000 ''a '')))] 100000 lg = Inr r \<and>
     map (\<lambda>b. (map m_file (b_members b), b_words b)) (combined_files r)
       = [([''huge.md''], 200000)]"
proof -
  have "suffix ''.md'' ''huge.md''" "\<not> prefix ''packed_'' ''huge.md''"
    by (simp_all add: suffix_def)
  from single_file [OF this, of ascii_word "concat (replicate 200000 ''a '')" 100000 lg]
  show ?thesis by (auto simp: count_words_replicate)
qed

section \<open>The claims\<close>

text \<open>
  C1. Every bundle with more than one member has a total of at most \<^verbatim>\<open>max_words\<close>. The
  packer does not keep this: line 155 tests \<^verbatim>\<open>current_word_count > 0\<close> where its comment
  speaks of the first file, so a bundle whose members so far have no words is not flushed.
  With \<^verbatim>\<open>a.md\<close> empty, \<^verbatim>\<open>b.md\<close> of two words and \<^verbatim>\<open>max_words = 1\<close> the run writes one bundle,
  of the members with 0 and 2 words and the total 2.
\<close>

theorem threshold_exceeded_by_two_members:
  "case combine_markdown_files ascii_word
          [(''a.md'', Regular ''''), (''b.md'', Regular ''x y'')] 1 False of
     Inl e \<Rightarrow> False
   | Inr r \<Rightarrow> map (\<lambda>b. (map m_words (b_members b), b_words b)) (combined_files r) = [([0, 2], 2)]"
  by code_simp

text \<open>
  C2. A file whose own count exceeds \<^verbatim>\<open>max_words\<close> is alone in its bundle. On the same
  directory \<^verbatim>\<open>b.md\<close> has two words, more than \<^verbatim>\<open>max_words = 1\<close>, and shares its bundle with
  \<^verbatim>\<open>a.md\<close>. (The example of the claim, one file of 200000 words, is \<open>oversized_singleton\<close>.)
\<close>

theorem oversized_file_not_alone:
  "case combine_markdown_files ascii_word
          [(''a.md'', Regular ''''), (''b.md'', Regular ''x y'')] 1 False of
     Inl e \<Rightarrow> False
   | Inr r \<Rightarrow> count_words_text ascii_word ''x y'' = 2 \<and>
       map (\<lambda>b. map m_file (b_members b)) (combined_files r) = [[''a.md'', ''b.md'']]"
  by code_simp

text \<open>
  C3. The current bundle is flushed before a file is added exactly when it has a member and
  the total with the file's count exceeds \<^verbatim>\<open>max_words\<close>. After \<^verbatim>\<open>a.md\<close> the bundle has a
  member and the total 0; \<^verbatim>\<open>b.md\<close> has two words and \<open>0 + 2 > 1\<close>, yet the body of the loop
  flushes nothing and appends \<^verbatim>\<open>b.md\<close> to the same bundle.
\<close>

theorem no_flush_with_member_of_no_words:
  "case body ascii_word 1 False ''a.md''
          (start [(''a.md'', Regular ''''), (''b.md'', Regular ''x y'')]) of
     Inl e \<Rightarrow> False
   | Inr s \<Rightarrow>
       map m_file (current_content s) = [''a.md''] \<and>
       current_word_count s = 0 \<and>
       count_words ascii_word (files s) ''b.md'' = (2, [Open_read ''b.md'']) \<and>
       (1::int) < int (current_word_count s + 2) \<and>
       (case body ascii_word 1 False ''b.md'' s of
          Inl e \<Rightarrow> False
        | Inr s' \<Rightarrow> combined_files s' = [] \<and>
            map m_file (current_content s') = [''a.md'', ''b.md''])"
  by code_simp

text \<open>
  C4, as the specification states it: the members of all bundles, in order, are in the
  lexicographic order of the artifact names, which are the stems. This fails for \<^verbatim>\<open>a.md\<close>
  and \<^verbatim>\<open>a-b.md\<close>: the source sorts the paths, and \<^verbatim>\<open>a-b.md\<close> comes before \<^verbatim>\<open>a.md\<close>
  (the hyphen is smaller than the dot), while the stem \<^verbatim>\<open>a\<close> comes before \<^verbatim>\<open>a-b\<close>.
\<close>

theorem order_by_stem_counterexample:
  "case combine_markdown_files ascii_word
          [(''a.md'', Regular ''x''), (''a-b.md'', Regular ''y'')] 100000 False of
     Inl e \<Rightarrow> False
   | Inr r \<Rightarrow>
       map (\<lambda>m. stem (m_file m)) (members r) = [''a-b'', ''a''] \<and>
       sort (map stem (discover [(''a.md'', Regular ''x''), (''a-b.md'', Regular ''y'')]))
         = [''a'', ''a-b'']"
  by code_simp

text \<open>
  C4, amended. When the run returns, the members of all bundles, in the order of the
  bundles, are exactly the discovered files that can be read, in the ascending order of
  their file names (the name with its suffix \<^verbatim>\<open>.md\<close>, compared by code point); no file
  occurs twice when the names of the directory are distinct.
\<close>

theorem packing_order:
  assumes "combine_markdown_files w d mw lg = Inr r"
  shows "map m_file (members r) = filter (\<lambda>f. read_text d f \<noteq> None) (sort (discover d)) \<and>
         sorted (map m_file (members r)) \<and>
         (distinct (map fst d) \<longrightarrow> distinct (map m_file (members r)))"
proof -
  have eq: "map m_file (members r) = filter (\<lambda>f. read_text d f \<noteq> None) (sort (discover d))"
    by (rule combine_member_files [OF assms])
  have "sorted (filter (\<lambda>f. read_text d f \<noteq> None) (sort (discover d)))"
    by (rule sorted_wrt_filter) simp
  moreover have "distinct (map fst d) \<Longrightarrow> distinct (filter (\<lambda>f. read_text d f \<noteq> None) (sort (discover d)))"
    by (simp add: discover_def)
  ultimately show ?thesis using eq by simp
qed

theorem packing_order_witness:
  "\<exists>r. combine_markdown_files ascii_word example_dir 2 True = Inr r \<and>
     map m_file (members r) = [''a.md'', ''b.md''] \<and>
     sorted (map m_file (members r)) \<and> distinct (map m_file (members r))"
proof -
  from writable_combine [OF example_dir_facts(1)] obtain r where
    r: "combine_markdown_files ascii_word example_dir 2 True = Inr r" by blast
  from packing_order [OF r] example_dir_facts(4,5) r show ?thesis by simp
qed

text \<open>
  C5. When every discovered file can be read and the run returns, the multiset of the files
  in the bundles is the multiset of the discovered files: none is lost, none is duplicated.
\<close>

theorem conservation:
  assumes "combine_markdown_files w d mw lg = Inr r"
    and "\<forall>f \<in> set (discover d). read_text d f \<noteq> None"
  shows "mset (map m_file (members r)) = mset (discover d)"
proof -
  have "filter (\<lambda>f. read_text d f \<noteq> None) (sort (discover d)) = sort (discover d)"
    using assms(2) by (simp add: filter_id_conv)
  then have "map m_file (members r) = sort (discover d)"
    by (simp add: combine_members [OF assms(1)] m_file_member_of)
  then show ?thesis by simp
qed

theorem conservation_witness:
  "\<exists>r. combine_markdown_files ascii_word readable_dir 2 False = Inr r \<and>
     mset (map m_file (members r)) = {#''b.md'', ''a.md''#}"
proof -
  from writable_combine [OF readable_dir_facts(1)] obtain r where
    r: "combine_markdown_files ascii_word readable_dir 2 False = Inr r" by blast
  have "\<forall>f \<in> set (discover readable_dir). read_text readable_dir f \<noteq> None"
    using readable_dir_facts(3) by (simp only: list_all_iff)
  from conservation [OF r this] r show ?thesis
    by (simp add: readable_dir_facts(2))
qed

text \<open>
  C7. When a discovered file cannot be read, and no directory stands where the packer
  writes, the run returns all the same: the word count of the file is 0, the file is no
  member of any bundle, every total is the sum of the counts of the members, the failure is
  logged by \<^verbatim>\<open>count_words\<close> (and by the packer's logger when one was passed), and every
  discovered file that can be read is a member of a bundle.
\<close>

theorem unreadable_file_skipped:
  assumes "writable d" and "f \<in> set (discover d)" and "read_text d f = None"
  shows "\<exists>r. combine_markdown_files w d mw lg = Inr r \<and>
     fst (count_words w d f) = 0 \<and>
     f \<notin> set (map m_file (members r)) \<and>
     (\<forall>b \<in> set (combined_files r). b_words b = sum_list (map m_words (b_members b))) \<and>
     Logging_error f \<in> set (trace r) \<and>
     (lg \<longrightarrow> Logger_error f \<in> set (trace r)) \<and>
     (\<forall>g \<in> set (discover d). read_text d g \<noteq> None \<longrightarrow> g \<in> set (map m_file (members r)))"
proof -
  from writable_combine [OF assms(1)] obtain r where
    r: "combine_markdown_files w d mw lg = Inr r" by blast
  have m: "map m_file (members r) = filter (\<lambda>f. read_text d f \<noteq> None) (sort (discover d))"
    by (simp add: combine_members [OF r] m_file_member_of)
  have "fst (count_words w d f) = 0"
    using assms(3) by (simp add: count_words_def)
  moreover have "f \<notin> set (map m_file (members r))"
    using assms(3) by (simp add: m)
  moreover have "\<forall>b \<in> set (combined_files r). b_words b = sum_list (map m_words (b_members b))"
    using combine_totals(2) [OF r] by blast
  moreover have "Logging_error f \<in> set (trace r)"
    using assms(2,3) by (simp add: combine_trace(3) [OF r])
  moreover have "lg \<longrightarrow> Logger_error f \<in> set (trace r)"
    using assms(2,3) by (simp add: combine_trace(4) [OF r])
  moreover have "\<forall>g \<in> set (discover d). read_text d g \<noteq> None \<longrightarrow> g \<in> set (map m_file (members r))"
    by (simp add: m)
  ultimately show ?thesis using r by blast
qed

theorem unreadable_file_skipped_witness:
  "\<exists>r. combine_markdown_files ascii_word example_dir 2 True = Inr r \<and>
     fst (count_words ascii_word example_dir ''c.md'') = 0 \<and>
     ''c.md'' \<notin> set (map m_file (members r)) \<and>
     Logging_error ''c.md'' \<in> set (trace r) \<and>
     Logger_error ''c.md'' \<in> set (trace r) \<and>
     ''a.md'' \<in> set (map m_file (members r)) \<and>
     ''b.md'' \<in> set (map m_file (members r))"
proof -
  have c: "''c.md'' \<in> set (discover example_dir)"
    by (simp add: example_dir_facts(2))
  from unreadable_file_skipped [OF example_dir_facts(1) c example_dir_facts(6),
      of ascii_word 2 True]
  obtain r where r: "combine_markdown_files ascii_word example_dir 2 True = Inr r"
    and z: "fst (count_words ascii_word example_dir ''c.md'') = 0"
    and n: "''c.md'' \<notin> set (map m_file (members r))"
    and l: "Logging_error ''c.md'' \<in> set (trace r)" "Logger_error ''c.md'' \<in> set (trace r)"
    and o: "\<forall>g \<in> set (discover example_dir).
              read_text example_dir g \<noteq> None \<longrightarrow> g \<in> set (map m_file (members r))"
    by blast
  from o have "''a.md'' \<in> set (map m_file (members r))" "''b.md'' \<in> set (map m_file (members r))"
    by (simp_all add: example_dir_facts(2,7,8))
  with r z n l show ?thesis by blast
qed

text \<open>
  C8. Discovery lists the entries named \<^verbatim>\<open>*.md\<close> whose name does not start with
  \<^verbatim>\<open>packed_\<close>. After a run that returns, the directory holds the bundles under names that
  start with \<^verbatim>\<open>packed_\<close>, discovery on it lists the same files as before, none of the
  bundles among them, and a second run packs the same members.
\<close>

theorem discovery_excludes_packed:
  "discover d = filter (\<lambda>f. suffix ''.md'' f \<and> \<not> prefix ''packed_'' f) (map fst d) \<and>
   (\<forall>r. combine_markdown_files w d mw lg = Inr r \<longrightarrow>
      discover (files r) = discover d \<and>
      (\<forall>b \<in> set (combined_files r).
         prefix ''packed_'' (b_path b) \<and> b_path b \<in> fst ` set (files r) \<and>
         b_path b \<notin> set (discover (files r))) \<and>
      (\<forall>r2. combine_markdown_files w (files r) mw lg = Inr r2 \<longrightarrow> members r2 = members r))"
proof (intro conjI allI impI)
  show "discover d = filter (\<lambda>f. suffix ''.md'' f \<and> \<not> prefix ''packed_'' f) (map fst d)"
    by (rule discover_by_name)
next
  fix r assume r: "combine_markdown_files w d mw lg = Inr r"
  from combine_agrees [OF r] have ag: "agrees d (files r)" .
  then show dd: "discover (files r) = discover d" by (simp add: agrees_def)
  show "\<forall>b \<in> set (combined_files r).
         prefix ''packed_'' (b_path b) \<and> b_path b \<in> fst ` set (files r) \<and>
         b_path b \<notin> set (discover (files r))"
  proof
    fix b assume b: "b \<in> set (combined_files r)"
    then have "b_path b \<in> set (map b_path (combined_files r))" by simp
    then have "b_path b \<in> set (map output_path [0..<length (combined_files r)])"
      by (simp only: combine_paths [OF r])
    then have p: "prefix ''packed_'' (b_path b)"
      using prefix_output_path by auto
    from combine_written [OF r b] have "map_of (files r) (b_path b) \<noteq> None"
      by (auto simp: read_text_def split: option.splits)
    then have "b_path b \<in> fst ` set (files r)"
      by (simp add: map_of_eq_None_iff)
    with p show "prefix ''packed_'' (b_path b) \<and> b_path b \<in> fst ` set (files r) \<and>
         b_path b \<notin> set (discover (files r))"
      using discover_not_packed by blast
  qed
  fix r2 assume r2: "combine_markdown_files w (files r) mw lg = Inr r2"
  have "members r2 = concat (map (member_of w (files r)) (sort (discover (files r))))"
    by (rule combine_members [OF r2])
  also have "\<dots> = concat (map (member_of w d) (sort (discover (files r))))"
    using sorted_discover_not_packed by (intro member_of_same [OF ag]) blast
  also have "\<dots> = members r"
    by (simp add: dd combine_members [OF r])
  finally show "members r2 = members r" .
qed

theorem discovery_excludes_packed_witness:
  "discover example_dir = [''b.md'', ''a.md'', ''c.md''] \<and>
   (\<exists>r. combine_markdown_files ascii_word example_dir 2 True = Inr r \<and>
      discover (files r) = [''b.md'', ''a.md'', ''c.md''] \<and>
      combined_files r \<noteq> [] \<and>
      list_all (\<lambda>b. prefix ''packed_'' (b_path b) \<and> b_path b \<in> fst ` set (files r) \<and>
                   b_path b \<notin> set (discover (files r))) (combined_files r) \<and>
      (\<exists>r2. combine_markdown_files ascii_word (files r) 2 True = Inr r2 \<and>
         members r2 = members r))"
proof -
  from writable_combine_files [OF example_dir_facts(1)] obtain r where
    r: "combine_markdown_files ascii_word example_dir 2 True = Inr r"
    and wr: "writable (files r)" by blast
  from writable_combine [OF wr] obtain r2 where
    r2: "combine_markdown_files ascii_word (files r) 2 True = Inr r2" by blast
  note t = discovery_excludes_packed [of example_dir ascii_word 2 True]
  from t r have d: "discover (files r) = discover example_dir" by blast
  from t r have b: "\<forall>b \<in> set (combined_files r).
         prefix ''packed_'' (b_path b) \<and> b_path b \<in> fst ` set (files r) \<and>
         b_path b \<notin> set (discover (files r))" by blast
  from t r r2 have m: "members r2 = members r" by blast
  have "members r \<noteq> []"
    using combine_member_files [OF r] example_dir_facts(4) by auto
  then have ne: "combined_files r \<noteq> []" by (auto simp: members_def)
  from d b m ne r r2 show ?thesis
    by (auto simp: example_dir_facts(2) list_all_iff)
qed

text \<open>
  C9. When the run returns, the i-th bundle (from 0) has the path \<^verbatim>\<open>packed_<i>.md\<close>, where
  \<^verbatim>\<open><i>\<close> is the decimal numeral of i, and the paths are distinct. Every bundle has a
  member, and the directory holds at the bundle's path the text of its first member followed,
  for each further member in order, by two newlines, three hyphens, two newlines and the
  text of that member. The text of a member is \<^verbatim>\<open>##\<close>, a space, the stem of its file, two
  newlines and the content of the file.
\<close>

theorem bundle_files_written:
  assumes "combine_markdown_files w d mw lg = Inr r"
  shows "map b_path (combined_files r) =
           map (\<lambda>i. ''packed_'' @ str_nat i @ ''.md'') [0..<length (combined_files r)] \<and>
         list_all2 (\<lambda>b i. \<exists>ds. b_path b = ''packed_'' @ ds @ ''.md'' \<and> decimal ds i)
           (combined_files r) [0..<length (combined_files r)] \<and>
         distinct (map b_path (combined_files r)) \<and>
         (\<forall>b \<in> set (combined_files r).
            b_members b \<noteq> [] \<and>
            read_text (files r) (b_path b) =
              Some (m_text (hd (b_members b)) @
                    concat (map (\<lambda>m. ''\<newline>\<newline>---\<newline>\<newline>'' @ m_text m) (tl (b_members b))))) \<and>
         (\<forall>m \<in> set (members r). \<exists>c. read_text d (m_file m) = Some c \<and>
            m_text m = ''## '' @ stem (m_file m) @ ''\<newline>\<newline>'' @ c)"
proof -
  have op: "output_path = (\<lambda>i. ''packed_'' @ str_nat i @ ''.md'')"
    by (rule ext) (simp add: output_path_def)
  have p: "map b_path (combined_files r) =
           map (\<lambda>i. ''packed_'' @ str_nat i @ ''.md'') [0..<length (combined_files r)]"
    using combine_paths [OF assms] by (simp only: op)
  have "list_all2 (\<lambda>b i. b_path b = ''packed_'' @ str_nat i @ ''.md'')
           (combined_files r) [0..<length (combined_files r)]"
  proof (rule list_all2_all_nthI)
    show "length (combined_files r) = length [0..<length (combined_files r)]" by simp
  next
    fix n assume n: "n < length (combined_files r)"
    have "map b_path (combined_files r) ! n =
        map (\<lambda>i. ''packed_'' @ str_nat i @ ''.md'') [0..<length (combined_files r)] ! n"
      by (rule arg_cong [OF p])
    then show "b_path (combined_files r ! n) =
        ''packed_'' @ str_nat ([0..<length (combined_files r)] ! n) @ ''.md''"
      using n by (simp only: nth_map length_upt diff_zero)
  qed
  then have dc: "list_all2 (\<lambda>b i. \<exists>ds. b_path b = ''packed_'' @ ds @ ''.md'' \<and> decimal ds i)
           (combined_files r) [0..<length (combined_files r)]"
    by (rule list_all2_mono) (simp add: str_nat_decimal)
  have "inj_on output_path (set [0..<length (combined_files r)])"
    by (rule inj_onI) (simp add: output_path_inj)
  then have "distinct (map output_path [0..<length (combined_files r)])"
    by (simp add: distinct_map)
  then have di: "distinct (map b_path (combined_files r))"
    by (simp only: combine_paths [OF assms])
  have wr: "\<forall>b \<in> set (combined_files r).
            b_members b \<noteq> [] \<and>
            read_text (files r) (b_path b) =
              Some (m_text (hd (b_members b)) @
                    concat (map (\<lambda>m. ''\<newline>\<newline>---\<newline>\<newline>'' @ m_text m) (tl (b_members b))))"
  proof
    fix b assume b: "b \<in> set (combined_files r)"
    have ne: "b_members b \<noteq> []" by (rule combine_totals(1) [OF assms b])
    then obtain m ms where ms: "b_members b = m # ms" by (cases "b_members b") auto
    have "join delimiter (map m_text (b_members b)) =
        m_text m @ concat (map (\<lambda>y. delimiter @ y) (map m_text ms))"
      unfolding ms list.map by (rule join_Cons)
    also have "\<dots> = m_text (hd (b_members b)) @
        concat (map (\<lambda>m. ''\<newline>\<newline>---\<newline>\<newline>'' @ m_text m) (tl (b_members b)))"
      by (simp add: ms delimiter_def comp_def)
    finally have "read_text (files r) (b_path b) =
              Some (m_text (hd (b_members b)) @
                    concat (map (\<lambda>m. ''\<newline>\<newline>---\<newline>\<newline>'' @ m_text m) (tl (b_members b))))"
      by (simp only: combine_written [OF assms b])
    with ne show "b_members b \<noteq> [] \<and>
            read_text (files r) (b_path b) =
              Some (m_text (hd (b_members b)) @
                    concat (map (\<lambda>m. ''\<newline>\<newline>---\<newline>\<newline>'' @ m_text m) (tl (b_members b))))"
      by (rule conjI)
  qed
  have "\<forall>m \<in> set (concat (map (member_of w d) fs)). \<exists>c. read_text d (m_file m) = Some c \<and>
            m_text m = ''## '' @ stem (m_file m) @ ''\<newline>\<newline>'' @ c" for fs
    by (induction fs) (auto simp: member_of_def heading_def split: option.splits)
  then have me: "\<forall>m \<in> set (members r). \<exists>c. read_text d (m_file m) = Some c \<and>
            m_text m = ''## '' @ stem (m_file m) @ ''\<newline>\<newline>'' @ c"
    by (simp only: combine_members [OF assms])
  from p dc di wr me show ?thesis by blast
qed

theorem bundle_files_written_witness:
  "\<exists>r. combine_markdown_files ascii_word bundle_dir 3 False = Inr r \<and>
     map b_path (combined_files r) = [''packed_0.md'', ''packed_1.md''] \<and>
     read_text (files r) ''packed_0.md'' =
       Some ''## a\<newline>\<newline>x\<newline>\<newline>---\<newline>\<newline>## b\<newline>\<newline>y z'' \<and>
     read_text (files r) ''packed_1.md'' = Some ''## c\<newline>\<newline>u v w''"
proof -
  from writable_combine [OF bundle_dir_facts(1)] obtain r where
    r: "combine_markdown_files ascii_word bundle_dir 3 False = Inr r" by blast
  from bundle_dir_run r have
    "map (\<lambda>b. map m_file (b_members b)) (combined_files r) = [[''a.md'', ''b.md''], [''c.md'']]"
    by simp
  then obtain b0 b1 m1 m2 m3 where cf: "combined_files r = [b0, b1]"
    and b0: "b_members b0 = [m1, m2]" and b1: "b_members b1 = [m3]"
    and f: "m_file m1 = ''a.md''" "m_file m2 = ''b.md''" "m_file m3 = ''c.md''"
    by (auto simp: map_eq_Cons_conv)
  note t = bundle_files_written [OF r]
  note t1 = t [THEN conjunct1]
  note t4 = t [THEN conjunct2, THEN conjunct2, THEN conjunct2, THEN conjunct1]
  note t5 = t [THEN conjunct2, THEN conjunct2, THEN conjunct2, THEN conjunct2]
  from t1 have "[b_path b0, b_path b1] =
      [''packed_'' @ str_nat 0 @ ''.md'', ''packed_'' @ str_nat 1 @ ''.md'']"
    by (simp add: cf upt_rec [of 0] upt_rec [of "Suc 0"])
  then have p: "b_path b0 = ''packed_0.md''" "b_path b1 = ''packed_1.md''"
    by (simp_all only: bundle_dir_facts(8,9) list.inject append.simps)
  have ms: "members r = [m1, m2, m3]" by (simp add: members_def cf b0 b1)
  have in1: "m1 \<in> set (members r)" and in2: "m2 \<in> set (members r)"
    and in3: "m3 \<in> set (members r)"
    by (simp_all add: ms)
  from bspec [OF t5 in1] have x1: "m_text m1 = ''## a\<newline>\<newline>x''"
    by (simp add: f bundle_dir_facts)
  from bspec [OF t5 in2] have x2: "m_text m2 = ''## b\<newline>\<newline>y z''"
    by (simp add: f bundle_dir_facts)
  from bspec [OF t5 in3] have x3: "m_text m3 = ''## c\<newline>\<newline>u v w''"
    by (simp add: f bundle_dir_facts)
  have i0: "b0 \<in> set (combined_files r)" and i1: "b1 \<in> set (combined_files r)"
    by (simp_all add: cf)
  from bspec [OF t4 i0] have c0: "read_text (files r) ''packed_0.md'' =
       Some ''## a\<newline>\<newline>x\<newline>\<newline>---\<newline>\<newline>## b\<newline>\<newline>y z''"
    by (simp add: b0 p x1 x2)
  from bspec [OF t4 i1] have c1: "read_text (files r) ''packed_1.md'' =
       Some ''## c\<newline>\<newline>u v w''"
    by (simp add: b1 p x3)
  have ps: "map b_path (combined_files r) = [''packed_0.md'', ''packed_1.md'']"
    by (simp only: cf p list.map)
  show ?thesis
    by (rule exI [of _ r]) (intro conjI r ps c0 c1)
qed

text \<open>
  C10. When the run returns, the files it opened for reading are the files discovered in
  the directory it started from, each twice (once counted, once read) and in sorted order;
  the files it opened for writing are the paths of its bundles; and no file it wrote is
  among those it read.
\<close>

theorem inputs_fixed_before_writing:
  assumes "combine_markdown_files w d mw lg = Inr r"
  shows "reads_of (trace r) = concat (map (\<lambda>f. [f, f]) (sort (discover d))) \<and>
         writes_of (trace r) = map b_path (combined_files r) \<and>
         set (writes_of (trace r)) \<inter> set (reads_of (trace r)) = {}"
proof -
  note t = combine_trace(1,2) [OF assms]
  have "set (reads_of (trace r)) \<subseteq> set (discover d)"
    by (auto simp: t(1))
  then have nr: "\<forall>p \<in> set (reads_of (trace r)). \<not> prefix ''packed_'' p"
    using discover_not_packed by blast
  have "set (writes_of (trace r)) = set (map output_path [0..<length (combined_files r)])"
    by (simp only: t(2) combine_paths [OF assms])
  then have "\<forall>p \<in> set (writes_of (trace r)). prefix ''packed_'' p"
    using prefix_output_path by auto
  with nr have "set (writes_of (trace r)) \<inter> set (reads_of (trace r)) = {}" by blast
  with t show ?thesis by simp
qed

theorem inputs_fixed_before_writing_witness:
  "\<exists>r. combine_markdown_files ascii_word example_dir 2 True = Inr r \<and>
     reads_of (trace r) = [''a.md'', ''a.md'', ''b.md'', ''b.md'', ''c.md'', ''c.md''] \<and>
     writes_of (trace r) = map b_path (combined_files r) \<and>
     set (writes_of (trace r)) \<inter> set (reads_of (trace r)) = {}"
proof -
  from writable_combine [OF example_dir_facts(1)] obtain r where
    r: "combine_markdown_files ascii_word example_dir 2 True = Inr r" by blast
  note t = inputs_fixed_before_writing [OF r]
  from t have "reads_of (trace r) = [''a.md'', ''a.md'', ''b.md'', ''b.md'', ''c.md'', ''c.md'']"
    by (simp add: example_dir_facts(3))
  with t r show ?thesis by blast
qed

end
